theory Spec2Isabelle
  imports Complex_Main "HOL-Library.Multiset"
begin

section \<open>Python strings and text files\<close>

text \<open>
  A Python \<open>str\<close> is modelled as a \<open>string\<close>; a \<open>char\<close> stands for one code point
  (the code points below 256). A text file is \<open>string option\<close>: \<open>None\<close> when the
  path does not exist, otherwise the decoded content.
\<close>

abbreviation LF :: char where "LF \<equiv> CHR 0x0A"
abbreviation CR :: char where "CR \<equiv> CHR 0x0D"

text \<open>\<open>str.isspace\<close> on one code point below 256.\<close>

definition isspace :: "char \<Rightarrow> bool" where
  "isspace c = (c \<in> {CHR 0x09, CHR 0x0A, CHR 0x0B, CHR 0x0C, CHR 0x0D,
                      CHR 0x1C, CHR 0x1D, CHR 0x1E, CHR 0x1F, CHR 0x20, CHR 0x85, CHR 0xA0})"

text \<open>\<open>s.strip()\<close>: white space removed at both ends.\<close>

definition strip :: "string \<Rightarrow> string" where
  "strip s = rev (dropWhile isspace (rev (dropWhile isspace s)))"

text \<open>\<open>s.rstrip("\n")\<close>: trailing line feeds removed.\<close>

definition rstrip_nl :: "string \<Rightarrow> string" where
  "rstrip_nl s = rev (dropWhile (\<lambda>c. c = LF) (rev s))"

text \<open>
  Iterating over a file opened in text mode yields its lines. With universal newlines
  a line ends at \<open>\n\<close>, \<open>\r\<close> or \<open>\r\n\<close>; the model breaks at every \<open>\n\<close> and every
  \<open>\r\<close> and leaves the terminator out. Every caller strips each line and drops the
  blank ones, so the terminator and the empty piece inside \<open>\r\n\<close> make no difference.
\<close>

definition is_linebreak :: "char \<Rightarrow> bool" where
  "is_linebreak c = (c = LF \<or> c = CR)"

fun text_lines :: "string \<Rightarrow> string list" where
  "text_lines [] = []"
| "text_lines (c # cs) =
     (if is_linebreak c then [] # text_lines cs
      else (case text_lines cs of [] \<Rightarrow> [[c]] | l # ls \<Rightarrow> (c # l) # ls))"

text \<open>\<open>[ln.strip() for ln in f if ln.strip()]\<close>\<close>

definition stripped_lines :: "string \<Rightarrow> string list" where
  "stripped_lines content = filter (\<lambda>l. l \<noteq> []) (map strip (text_lines content))"


section \<open>File helpers of the recipient queue\<close>

text \<open>
  \<open>atomic_write_lines(path, lines)\<close> writes \<open>l.rstrip("\n") + "\n"\<close> for each line to a
  temporary file and renames it over \<open>path\<close>; the result is the new file.
\<close>

definition atomic_write_lines :: "string list \<Rightarrow> string option" where
  "atomic_write_lines lines = Some (concat (map (\<lambda>l. rstrip_nl l @ [LF]) lines))"

text \<open>
  The loop of \<open>read_lines_unique\<close> over the stripped lines, with its two variables
  \<open>seen\<close> and \<open>out\<close>.
\<close>

fun unique_loop :: "string list \<Rightarrow> string set \<Rightarrow> string list \<Rightarrow> string list" where
  "unique_loop [] seen out = out"
| "unique_loop (l # ls) seen out =
     (if l \<notin> seen then unique_loop ls (insert l seen) (out @ [l])
      else unique_loop ls seen out)"

definition read_lines_unique :: "string option \<Rightarrow> string list" where
  "read_lines_unique file =
     (case file of
        None \<Rightarrow> []
      | Some content \<Rightarrow> unique_loop (stripped_lines content) {} [])"

text \<open>
  \<open>append_unique_line(path, line)\<close> opens the file in mode \<open>a+\<close> (which creates it),
  reads the stripped lines, and writes \<open>line + "\n"\<close> at the end unless \<open>line\<close> is
  among them. The result is the file afterwards and the returned flag.
\<close>

definition append_unique_line :: "string option \<Rightarrow> string \<Rightarrow> string option \<times> bool" where
  "append_unique_line file line =
     (let content = (case file of None \<Rightarrow> [] | Some c \<Rightarrow> c);
          lines = stripped_lines content
      in if line \<in> set lines then (Some content, False)
         else (Some (content @ line @ [LF]), True))"

definition remove_username_from_file_atomic :: "string option \<Rightarrow> string \<Rightarrow> string option" where
  "remove_username_from_file_atomic file username =
     (let lines = read_lines_unique file;
          new = filter (\<lambda>l. l \<noteq> username) lines
      in atomic_write_lines new)"

text \<open>
  The loop of \<open>move_line_to_end_atomic\<close>: it skips the first line equal to \<open>line\<close>
  and copies every other one, with its variables \<open>found\<close> and \<open>new\<close>.
\<close>

fun move_loop :: "string \<Rightarrow> string list \<Rightarrow> bool \<Rightarrow> string list \<Rightarrow> bool \<times> string list" where
  "move_loop line [] found new = (found, new)"
| "move_loop line (l # ls) found new =
     (if \<not> found \<and> l = line then move_loop line ls True new
      else move_loop line ls found (new @ [l]))"

definition move_line_to_end_atomic :: "string option \<Rightarrow> string \<Rightarrow> string option \<times> bool" where
  "move_line_to_end_atomic file line =
     (let lines = read_lines_unique file
      in if lines = [] then (file, False)
         else (case move_loop line lines False [] of
                 (found, new) \<Rightarrow>
                   if \<not> found then (file, False)
                   else (atomic_write_lines (new @ [line]), True)))"

text \<open>A sequence of \<open>append_unique_line\<close> calls on one file, and the flags they return.\<close>

fun append_all :: "string option \<Rightarrow> string list \<Rightarrow> string option" where
  "append_all file [] = file"
| "append_all file (r # rs) = append_all (fst (append_unique_line file r)) rs"

text \<open>
  What the queue contract asks of a load after such a sequence: every distinct entry
  once, in the order of its first appearance.
\<close>

definition first_seen :: "string list \<Rightarrow> string list" where
  "first_seen rs = rev (remdups (rev rs))"

text \<open>
  A recipient token as the listener writes it: not blank, nothing to strip, and on one
  line.
\<close>

definition recipient_token :: "string \<Rightarrow> bool" where
  "recipient_token r = (r \<noteq> [] \<and> strip r = r \<and> (\<forall>c \<in> set r. \<not> is_linebreak c))"


section \<open>Sender selection\<close>

text \<open>
  The local function \<open>is_available\<close> of \<open>choose_sender_index\<close>, with the variables it
  closes over: the permanent deny-list, the cooldown map and the current time (seconds,
  a float in the source, a real here). \<open>disabled_until.get(sess, 0.0)\<close> reads a missing
  entry as 0.
\<close>

definition is_available :: "string set \<Rightarrow> (string \<rightharpoonup> real) \<Rightarrow> real \<Rightarrow> string \<Rightarrow> bool" where
  "is_available pb du now_ts sess =
     (if sess \<in> pb then False
      else now_ts \<ge> (case du sess of None \<Rightarrow> 0 | Some t \<Rightarrow> t))"

text \<open>
  \<open>random.shuffle(x)\<close>: for \<open>i\<close> from \<open>len(x) - 1\<close> down to 1 it draws
  \<open>j = randbelow(i + 1)\<close> and exchanges \<open>x[i]\<close> and \<open>x[j]\<close>. The draws are the
  argument \<open>draw\<close>, one per \<open>i\<close>; \<open>randbelow(i + 1)\<close> is below \<open>i + 1\<close>, which the
  model gets by reducing the draw.
\<close>

fun shuffle_loop :: "(nat \<Rightarrow> nat) \<Rightarrow> nat \<Rightarrow> nat list \<Rightarrow> nat list" where
  "shuffle_loop draw 0 x = x"
| "shuffle_loop draw (Suc i) x =
     (let j = draw (Suc i) mod (Suc i + 1)
      in shuffle_loop draw i (x[Suc i := x ! j, j := x ! Suc i]))"

definition shuffle :: "(nat \<Rightarrow> nat) \<Rightarrow> nat list \<Rightarrow> nat list" where
  "shuffle draw x = shuffle_loop draw (length x - 1) x"

text \<open>
  The round-robin loop \<open>for _ in range(n)\<close>: the first argument counts the iterations
  that are left. Python's \<open>%\<close> with a positive modulus is \<open>mod\<close> on \<open>int\<close>, also for
  the initial cursor \<open>-1\<close>.
\<close>

fun round_robin_loop :: "nat \<Rightarrow> string list \<Rightarrow> (string \<Rightarrow> bool) \<Rightarrow> int \<Rightarrow> int option" where
  "round_robin_loop 0 sender_sessions avail last_index = None"
| "round_robin_loop (Suc k) sender_sessions avail last_index =
     (let last_index' = (last_index + 1) mod int (length sender_sessions)
      in if avail (sender_sessions ! nat last_index') then Some last_index'
         else round_robin_loop k sender_sessions avail last_index')"

definition choose_sender_index ::
  "(nat \<Rightarrow> nat) \<Rightarrow> string \<Rightarrow> string list \<Rightarrow> int \<Rightarrow> (string \<rightharpoonup> real) \<Rightarrow> real \<Rightarrow> string set
     \<Rightarrow> int option" where
  "choose_sender_index draw mode sender_sessions last_index du now_ts pb =
     (let n = length sender_sessions in
      if n = 0 then None
      else if mode = ''single_account'' then
        (if is_available pb du now_ts (sender_sessions ! 0) then Some 0 else None)
      else if mode = ''random'' then
        (case find (\<lambda>i. is_available pb du now_ts (sender_sessions ! i)) (shuffle draw [0..<n]) of
           None \<Rightarrow> None
         | Some i \<Rightarrow> Some (int i))
      else round_robin_loop n sender_sessions (is_available pb du now_ts) last_index)"

text \<open>
  Consecutive selections as \<open>_process_file_sends\<close> makes them: each returned index is
  stored in \<open>last_idx_ref["last"]\<close> and is the cursor of the next call; a call that
  returns \<open>None\<close> ends the list.
\<close>

fun consecutive_selections ::
  "nat \<Rightarrow> (nat \<Rightarrow> nat) \<Rightarrow> string \<Rightarrow> string list \<Rightarrow> int \<Rightarrow> (string \<rightharpoonup> real) \<Rightarrow> real \<Rightarrow> string set
     \<Rightarrow> int list" where
  "consecutive_selections 0 draw mode sender_sessions cursor du now_ts pb = []"
| "consecutive_selections (Suc k) draw mode sender_sessions cursor du now_ts pb =
     (case choose_sender_index draw mode sender_sessions cursor du now_ts pb of
        None \<Rightarrow> []
      | Some idx \<Rightarrow> idx # consecutive_selections k draw mode sender_sessions idx du now_ts pb)"


section \<open>Send history\<close>

text \<open>
  The in-memory history is one Python dict. \<open>load_sent_history\<close> fills it with keys
  \<open>(username, message_key)\<close> and \<open>datetime\<close> values; \<open>send_one_message\<close> stores under
  the key \<open>username.lower()\<close> the float \<open>time.time()\<close>. Keys and values are therefore
  of two kinds each.

  A \<open>datetime\<close> is a number of microseconds, the resolution of the type, so that
  differences and comparisons are exact. It is offset-aware, then the number is the UTC
  instant, or offset-naive, as \<open>datetime.fromisoformat\<close> returns for a ledger timestamp
  written without an offset. \<open>utc_now()\<close> is aware.
\<close>

datatype hist_key = NameKey string | PairKey string string

datatype datetime = Aware int | Naive int

datatype hist_val = Stamp datetime | Secs real

datatype py_error = TypeError | OverflowError

text \<open>
  \<open>timedelta(days=days)\<close> in microseconds; the constructor raises \<open>OverflowError\<close>
  when the magnitude is more than 999999999 days.
\<close>

definition timedelta_days :: "int \<Rightarrow> py_error + int" where
  "timedelta_days days =
     (if \<bar>days\<bar> > 999999999 then Inl OverflowError else Inr (days * 86400000000))"

text \<open>
  \<open>within_history_window(hist, username, message_key, days)\<close>; the last argument is
  the value of \<open>utc_now()\<close>. \<open>if not dt\<close> holds for a missing key and for the float
  0.0; a \<open>datetime\<close> is always true. In \<open>(utc_now() - dt) < timedelta(days=days)\<close> the
  difference is computed first: subtracting a float or a naive \<open>datetime\<close> from the
  aware \<open>utc_now()\<close> raises \<open>TypeError\<close>. Then the window is built, which may raise
  \<open>OverflowError\<close>.
\<close>

definition within_history_window ::
  "(hist_key \<rightharpoonup> hist_val) \<Rightarrow> string \<Rightarrow> string \<Rightarrow> int \<Rightarrow> int \<Rightarrow> py_error + bool" where
  "within_history_window hist username message_key days utc_now =
     (case hist (PairKey username message_key) of
        None \<Rightarrow> Inr False
      | Some (Secs f) \<Rightarrow> if f = 0 then Inr False else Inl TypeError
      | Some (Stamp (Naive dt)) \<Rightarrow> Inl TypeError
      | Some (Stamp (Aware dt)) \<Rightarrow>
          (case timedelta_days days of
             Inl e \<Rightarrow> Inl e
           | Inr window \<Rightarrow> Inr (utc_now - dt < window)))"

text \<open>
  A CSV file is the list of its rows, a row the list of its fields; \<open>None\<close> when the
  file does not exist. Both writers put the header first when they create the file.
\<close>

type_synonym csv_file = "string list list option"

definition append_sent_history :: "csv_file \<Rightarrow> string \<Rightarrow> string \<Rightarrow> string \<Rightarrow> csv_file" where
  "append_sent_history path username message_key now_iso =
     (case path of
        None \<Rightarrow> Some [[''timestamp'', ''username'', ''message_key''], [now_iso, username, message_key]]
      | Some rows \<Rightarrow> Some (rows @ [[now_iso, username, message_key]]))"

definition append_send_log :: "csv_file \<Rightarrow> string list \<Rightarrow> csv_file" where
  "append_send_log path row =
     (case path of
        None \<Rightarrow> Some [[''timestamp'', ''username'', ''group'', ''sender_session'', ''result'', ''error''], row]
      | Some rows \<Rightarrow> Some (rows @ [row]))"


section \<open>The send step of a flow\<close>

text \<open>\<open>str.lower()\<close> on code points below 256.\<close>

definition lower_char :: "char \<Rightarrow> char" where
  "lower_char c =
     (let k = (of_char c :: nat)
      in if (65 \<le> k \<and> k \<le> 90) \<or> (192 \<le> k \<and> k \<le> 222 \<and> k \<noteq> 215) then char_of (k + 32) else c)"

definition lower :: "string \<Rightarrow> string" where
  "lower s = map lower_char s"

text \<open>
  What \<open>await client.send_message(username, text)\<close> does: it returns, or it raises an
  exception, named here by the \<open>except\<close> clause of \<open>send_one_message\<close> that catches it
  (the clauses are tried in the order of the source, so \<open>BadRequest\<close> stands for a bad
  request that is neither a peer flood nor a privacy restriction). \<open>FloodWait\<close> carries
  the wait in seconds that the server indicated and, apart from it, the attribute
  \<open>seconds\<close> of the exception object if it has one, which is what
  \<open>getattr(e, "seconds", 60)\<close> reads.
\<close>

datatype send_outcome =
  Delivered | PeerFlood | UserPrivacyRestricted | BadRequest
  | FloodWait int "int option" | OtherException

text \<open>
  The \<open>FloodWait\<close> that \<open>bot.py\<close> imports from \<open>pyrogram.errors\<close>: the library keeps
  the server's wait in the attribute \<open>value\<close>, and the object has no attribute
  \<open>seconds\<close>.
\<close>

definition pyrogram_flood_wait :: "int \<Rightarrow> send_outcome" where
  "pyrogram_flood_wait server_wait = FloodWait server_wait None"

text \<open>\<open>random.uniform(a, b)\<close> is \<open>a + (b - a) * random()\<close>; \<open>u\<close> is the value of \<open>random()\<close>.\<close>

definition random_uniform :: "real \<Rightarrow> real \<Rightarrow> real \<Rightarrow> real" where
  "random_uniform a b u = a + (b - a) * u"

text \<open>
  The state a flow works on. \<open>disabled_until\<close>, \<open>sent_hist\<close> and the cursor are created
  once by \<open>run_sender\<close> and shared by all flows, as are the two log files;
  \<open>send_counter\<close> is the dict that each call of \<open>_process_file_sends\<close> creates empty
  for itself, and \<open>queue_file\<close> is the flow's queue. \<open>transport_calls\<close> is not a
  variable of the program: it lists the calls of \<open>client.send_message\<close> that the run
  has made, with session, recipient and what the call did.
\<close>

record state =
  disabled_until :: "string \<rightharpoonup> real"
  sent_hist :: "hist_key \<rightharpoonup> hist_val"
  last_idx :: int
  send_log :: csv_file
  sent_history_file :: csv_file
  queue_file :: "string option"
  send_counter :: "string \<rightharpoonup> int"
  transport_calls :: "(string \<times> string \<times> send_outcome) list"

text \<open>The start of \<open>_process_file_sends\<close> on the shared state: \<open>send_counter = {}\<close>.\<close>

definition start_flow_run :: "string option \<Rightarrow> state \<Rightarrow> state" where
  "start_flow_run qf st = st\<lparr>queue_file := qf, send_counter := Map.empty, transport_calls := []\<rparr>"

text \<open>
  \<open>send_one_message\<close>. \<open>now_ts\<close> is its reading of \<open>time.time()\<close>, \<open>u\<close> the random
  number behind \<open>random.uniform(20, 40)\<close>, \<open>outcome\<close> what the transport does if it is
  called. The result is the returned flag and the state afterwards.
\<close>

definition send_one_message ::
  "real \<Rightarrow> real \<Rightarrow> send_outcome \<Rightarrow> string \<Rightarrow> string \<Rightarrow> state \<Rightarrow> bool \<times> state" where
  "send_one_message now_ts u outcome session_path username st =
     (let peer_flood_cooldown = 6 * 3600;
          generic_error_cooldown = 300;
          count = (case send_counter st session_path of None \<Rightarrow> 0 | Some c \<Rightarrow> c)
      in if count \<ge> 2 then
           (False, st\<lparr>disabled_until :=
                         (disabled_until st)(session_path \<mapsto> now_ts + random_uniform 20 40 u)\<rparr>)
         else
           (let st1 = st\<lparr>transport_calls :=
                            transport_calls st @ [(session_path, username, outcome)]\<rparr>
            in case outcome of
                 Delivered \<Rightarrow>
                   (True, st1\<lparr>send_counter := (send_counter st1)(session_path \<mapsto> count + 1),
                              sent_hist := (sent_hist st1)(NameKey (lower username) \<mapsto> Secs now_ts)\<rparr>)
               | PeerFlood \<Rightarrow>
                   (False, st1\<lparr>disabled_until :=
                                 (disabled_until st1)(session_path \<mapsto> now_ts + peer_flood_cooldown)\<rparr>)
               | UserPrivacyRestricted \<Rightarrow> (False, st1)
               | BadRequest \<Rightarrow> (False, st1)
               | FloodWait server_wait seconds \<Rightarrow>
                   (let wait_s = (case seconds of None \<Rightarrow> 60 | Some s \<Rightarrow> s)
                    in (False, st1\<lparr>disabled_until :=
                                     (disabled_until st1)(session_path \<mapsto> now_ts + real_of_int wait_s + 2)\<rparr>))
               | OtherException \<Rightarrow>
                   (False, st1\<lparr>disabled_until :=
                                 (disabled_until st1)(session_path \<mapsto> now_ts + generic_error_cooldown)\<rparr>)))"

text \<open>
  What one send attempt reads from outside: the clock and the random number of
  \<open>send_one_message\<close>, the transport, and the two timestamps \<open>utc_iso()\<close> and
  \<open>utc_now().isoformat()\<close> written to the logs.
\<close>

record attempt =
  now_ts :: real
  uniform_u :: real
  outcome :: send_outcome
  log_stamp :: string
  history_stamp :: string

text \<open>
  The end of the loop body of \<open>_process_file_sends\<close>, from the call of
  \<open>send_one_message\<close> on: \<open>username\<close> is the queue line, \<open>uname\<close> its normalised
  form, \<open>session_path\<close> the selected session.
\<close>

definition send_and_settle ::
  "attempt \<Rightarrow> string \<Rightarrow> string \<Rightarrow> string \<Rightarrow> string \<Rightarrow> string \<Rightarrow> state \<Rightarrow> state" where
  "send_and_settle a flow_name message_key session_path username uname st =
     (case send_one_message (now_ts a) (uniform_u a) (outcome a) session_path uname st of
        (ok, st1) \<Rightarrow>
          if ok then
            (let st2 = st1\<lparr>send_log := append_send_log (send_log st1)
                                [log_stamp a, uname, flow_name, session_path, ''OK'', '''']\<rparr>;
                 st3 = st2\<lparr>queue_file := remove_username_from_file_atomic (queue_file st2) username\<rparr>
             in st3\<lparr>sent_history_file :=
                       append_sent_history (sent_history_file st3) uname message_key (history_stamp a)\<rparr>)
          else st1\<lparr>queue_file := fst (move_line_to_end_atomic (queue_file st1) username)\<rparr>)"

text \<open>
  A run of send attempts of one flow, each with its session, queue line and normalised
  recipient.
\<close>

fun send_run ::
  "string \<Rightarrow> string \<Rightarrow> (attempt \<times> string \<times> string \<times> string) list \<Rightarrow> state \<Rightarrow> state" where
  "send_run flow_name message_key [] st = st"
| "send_run flow_name message_key ((a, session_path, username, uname) # rest) st =
     send_run flow_name message_key rest
       (send_and_settle a flow_name message_key session_path username uname st)"

text \<open>The deliveries that a session has made in the run.\<close>

definition deliveries :: "string \<Rightarrow> state \<Rightarrow> nat" where
  "deliveries s st = length (filter (\<lambda>(s', r, oc). s' = s \<and> oc = Delivered) (transport_calls st))"

text \<open>
  The state that \<open>run_sender\<close> sets up when no log file exists yet: empty cooldown map,
  empty history, cursor \<open>-1\<close>; then a flow is started on its queue file.
\<close>

definition fresh_state :: "string option \<Rightarrow> state" where
  "fresh_state qf =
     \<lparr>disabled_until = Map.empty, sent_hist = Map.empty, last_idx = - 1,
      send_log = None, sent_history_file = None,
      queue_file = qf, send_counter = Map.empty, transport_calls = []\<rparr>"

text \<open>The rows of a CSV file, none when it does not exist.\<close>

definition rows_of :: "csv_file \<Rightarrow> string list list" where
  "rows_of f = (case f of None \<Rightarrow> [] | Some rows \<Rightarrow> rows)"

section \<open>Properties of the queue file helpers\<close>

lemma text_lines_eq_Nil: "text_lines s = [] \<longleftrightarrow> s = []"
  by (cases s) (auto split: list.splits)

lemma text_lines_line:
  "\<forall>c \<in> set l. \<not> is_linebreak c \<Longrightarrow> text_lines (l @ LF # rest) = l # text_lines rest"
  by (induction l) (auto simp: is_linebreak_def)

lemma text_lines_written:
  "\<forall>l \<in> set ls. \<forall>c \<in> set l. \<not> is_linebreak c \<Longrightarrow>
   text_lines (concat (map (\<lambda>l. l @ [LF]) ls) @ rest) = ls @ text_lines rest"
  by (induction ls) (auto simp: text_lines_line)

lemma text_lines_append:
  "content = [] \<or> is_linebreak (last content) \<Longrightarrow>
   text_lines (content @ rest) = text_lines content @ text_lines rest"
proof (induction content)
  case Nil
  then show ?case by simp
next
  case (Cons c cs)
  show ?case
  proof (cases "cs = []")
    case True
    with Cons.prems show ?thesis by simp
  next
    case False
    with Cons.prems have "is_linebreak (last cs)" by simp
    with Cons.IH have ih: "text_lines (cs @ rest) = text_lines cs @ text_lines rest" by simp
    from False obtain l ls where "text_lines cs = l # ls"
      by (cases "text_lines cs") (auto simp: text_lines_eq_Nil)
    with ih show ?thesis by simp
  qed
qed

lemma text_lines_no_break_all:
  "\<forall>l \<in> set (text_lines s). \<forall>c \<in> set l. \<not> is_linebreak c"
proof (induction s)
  case Nil
  then show ?case by simp
next
  case (Cons a s)
  show ?case
  proof (cases "is_linebreak a")
    case True
    with Cons show ?thesis by simp
  next
    case False
    with Cons show ?thesis by (cases "text_lines s") auto
  qed
qed

lemma text_lines_no_break:
  "l \<in> set (text_lines s) \<Longrightarrow> c \<in> set l \<Longrightarrow> \<not> is_linebreak c"
  using text_lines_no_break_all by blast

lemma set_strip: "set (strip s) \<subseteq> set s"
  unfolding strip_def
  by (metis set_dropWhileD set_rev subsetI)

lemma strip_idem: "strip (strip s) = strip s"
proof -
  define t where "t = dropWhile isspace s"
  define u where "u = rev (dropWhile isspace (rev t))"
  have su: "strip s = u" by (simp add: strip_def t_def u_def)
  have "dropWhile isspace u = u"
  proof (cases u)
    case Nil
    then show ?thesis by simp
  next
    case (Cons a u')
    have "t = u @ rev (takeWhile isspace (rev t))"
      unfolding u_def by (metis rev_append rev_rev_ident takeWhile_dropWhile_id)
    with Cons have "t \<noteq> []" "hd t = a" by (metis append_Cons list.distinct(1), metis append_Cons list.sel(1))
    then have "\<not> isspace a" unfolding t_def by (metis hd_dropWhile)
    with Cons show ?thesis by simp
  qed
  then have "strip u = rev (dropWhile isspace (rev u))" by (simp add: strip_def)
  also have "\<dots> = u" by (simp add: u_def)
  finally show ?thesis by (simp add: su)
qed

lemma strip_fixed_last: "strip r = r \<Longrightarrow> r \<noteq> [] \<Longrightarrow> \<not> isspace (last r)"
proof -
  assume a: "strip r = r" and b: "r \<noteq> []"
  define t where "t = dropWhile isspace r"
  from a have "rev r = dropWhile isspace (rev t)" by (simp add: strip_def t_def) (metis rev_rev_ident)
  with b have "\<not> isspace (hd (rev r))" by (metis hd_dropWhile rev_is_Nil_conv)
  with b show ?thesis by (simp add: hd_rev)
qed

lemma rstrip_nl_token: "recipient_token r \<Longrightarrow> rstrip_nl r = r"
proof -
  assume "recipient_token r"
  then have "r \<noteq> []" "\<not> isspace (last r)"
    by (auto simp: recipient_token_def strip_fixed_last)
  then have "last r \<noteq> LF" by (auto simp: isspace_def)
  with \<open>r \<noteq> []\<close> have "dropWhile (\<lambda>c. c = LF) (rev r) = rev r"
    by (cases "rev r") (auto simp: last_rev hd_rev)
  then show ?thesis by (simp add: rstrip_nl_def)
qed

lemma stripped_lines_tokens: "l \<in> set (stripped_lines content) \<Longrightarrow> recipient_token l"
  unfolding stripped_lines_def recipient_token_def
  using set_strip text_lines_no_break strip_idem by auto blast

lemma remdups_skip: "l \<in> set B \<Longrightarrow> remdups (A @ l # B) = remdups (A @ B)"
  by (induction A) auto

lemma first_seen_snoc:
  "first_seen (xs @ [r]) = (if r \<in> set xs then first_seen xs else first_seen xs @ [r])"
  by (simp add: first_seen_def)

lemma set_first_seen: "set (first_seen xs) = set xs"
  by (simp add: first_seen_def)

lemma distinct_first_seen: "distinct (first_seen xs)"
  by (simp add: first_seen_def)

lemma first_seen_distinct: "distinct xs \<Longrightarrow> first_seen xs = xs"
  by (simp add: first_seen_def distinct_remdups_id)

lemma unique_loop_first_seen:
  "distinct out \<Longrightarrow> unique_loop ls (set out) out = first_seen (out @ ls)"
proof (induction ls arbitrary: out)
  case Nil
  then show ?case by (simp add: first_seen_distinct)
next
  case (Cons l ls)
  show ?case
  proof (cases "l \<in> set out")
    case True
    then have "remdups (rev ls @ l # rev out) = remdups (rev ls @ rev out)"
      by (intro remdups_skip) simp
    with True Cons show ?thesis by (simp add: first_seen_def)
  next
    case False
    with Cons.prems have "distinct (out @ [l])" by simp
    from Cons.IH [OF this] False show ?thesis by simp
  qed
qed

lemma read_lines_unique_Some:
  "read_lines_unique (Some content) = first_seen (stripped_lines content)"
  using unique_loop_first_seen [of "[]"] by (simp add: read_lines_unique_def)

lemma read_lines_unique_distinct: "distinct (read_lines_unique qf)"
  by (cases qf) (simp_all add: read_lines_unique_def [of None] read_lines_unique_Some distinct_first_seen)

lemma read_lines_unique_tokens: "l \<in> set (read_lines_unique qf) \<Longrightarrow> recipient_token l"
  by (cases qf)
     (auto simp: read_lines_unique_def [of None] read_lines_unique_Some set_first_seen
           dest: stripped_lines_tokens)

lemma stripped_lines_written:
  assumes "\<forall>l \<in> set ls. recipient_token l"
  shows "stripped_lines (concat (map (\<lambda>l. rstrip_nl l @ [LF]) ls)) = ls"
proof -
  from assms have a: "map (\<lambda>l. rstrip_nl l @ [LF]) ls = map (\<lambda>l. l @ [LF]) ls"
    by (simp add: rstrip_nl_token)
  from assms have "\<forall>l \<in> set ls. \<forall>c \<in> set l. \<not> is_linebreak c"
    by (simp add: recipient_token_def)
  from text_lines_written [OF this, of "[]"]
  have b: "text_lines (concat (map (\<lambda>l. l @ [LF]) ls)) = ls" by simp
  from assms have c: "map strip ls = ls"
    by (simp add: recipient_token_def map_idI)
  from assms have d: "filter (\<lambda>l. l \<noteq> []) ls = ls"
    by (simp add: recipient_token_def)
  show ?thesis by (simp add: stripped_lines_def a b c d)
qed

lemma read_written:
  "distinct ls \<Longrightarrow> \<forall>l \<in> set ls. recipient_token l \<Longrightarrow>
   read_lines_unique (atomic_write_lines ls) = ls"
  by (simp add: atomic_write_lines_def read_lines_unique_Some stripped_lines_written
                first_seen_distinct)

lemma move_loop_True: "move_loop line ls True new = (True, new @ ls)"
  by (induction ls arbitrary: new) auto

lemma move_loop_False:
  "move_loop line ls False new = (line \<in> set ls, new @ remove1 line ls)"
  by (induction ls arbitrary: new) (auto simp: move_loop_True)

lemma move_result:
  "move_line_to_end_atomic qf line =
     (if line \<in> set (read_lines_unique qf)
      then (atomic_write_lines (remove1 line (read_lines_unique qf) @ [line]), True)
      else (qf, False))"
  by (auto simp: move_line_to_end_atomic_def Let_def move_loop_False)

lemma read_after_move:
  assumes "line \<in> set (read_lines_unique qf)"
  shows "read_lines_unique (fst (move_line_to_end_atomic qf line))
           = remove1 line (read_lines_unique qf) @ [line]"
proof -
  let ?q = "read_lines_unique qf"
  have "distinct ?q" by (rule read_lines_unique_distinct)
  with assms have "distinct (remove1 line ?q @ [line])" by auto
  moreover have "\<forall>l \<in> set (remove1 line ?q @ [line]). recipient_token l"
    using assms read_lines_unique_tokens [of _ qf] by (auto dest: notin_set_remove1)
  ultimately show ?thesis using assms by (simp add: move_result read_written)
qed

lemma read_after_remove:
  "read_lines_unique (remove_username_from_file_atomic qf username)
     = filter (\<lambda>l. l \<noteq> username) (read_lines_unique qf)"
  unfolding remove_username_from_file_atomic_def Let_def
  by (rule read_written)
     (auto simp: read_lines_unique_distinct dest: read_lines_unique_tokens)


section \<open>Properties of the sender selection\<close>

lemma mset_shuffle_loop: "i < length x \<Longrightarrow> mset (shuffle_loop draw i x) = mset x"
proof (induction i arbitrary: x)
  case 0
  then show ?case by simp
next
  case (Suc i)
  let ?j = "draw (Suc i) mod (Suc i + 1)"
  have "?j < Suc i + 1" by (rule mod_less_divisor) simp
  with Suc.prems have j: "?j < length x" by linarith
  have "mset (x[Suc i := x ! ?j, ?j := x ! Suc i]) = mset x"
    using j Suc.prems by (rule mset_swap)
  moreover have "i < length (x[Suc i := x ! ?j, ?j := x ! Suc i])" using Suc.prems by simp
  ultimately show ?case using Suc.IH by (simp add: Let_def)
qed

lemma set_shuffle: "set (shuffle draw [0..<n]) = {0..<n}"
proof (cases n)
  case 0
  then show ?thesis by (simp add: shuffle_def)
next
  case (Suc m)
  then have "mset (shuffle draw [0..<n]) = mset [0..<n]"
    by (simp add: shuffle_def mset_shuffle_loop del: upt_Suc)
  then have "set (shuffle draw [0..<n]) = set [0..<n]" by (rule mset_eq_setD)
  then show ?thesis by simp
qed

lemma round_robin_loop_find:
  "round_robin_loop k ss avail cur =
     find (\<lambda>i. avail (ss ! nat i)) (map (\<lambda>j. (cur + int j) mod int (length ss)) [Suc 0..<Suc k])"
proof (induction k arbitrary: cur)
  case 0
  then show ?case by simp
next
  case (Suc k)
  let ?n = "int (length ss)"
  let ?l = "(cur + 1) mod ?n"
  have shift: "map (\<lambda>j. (?l + int j) mod ?n) [Suc 0..<Suc k]
                 = map (\<lambda>j. (cur + int j) mod ?n) [Suc (Suc 0)..<Suc (Suc k)]"
  proof -
    have "[Suc (Suc 0)..<Suc (Suc k)] = map Suc [Suc 0..<Suc k]"
      by (simp only: map_Suc_upt)
    moreover have "\<And>j. (?l + int j) mod ?n = (cur + int (Suc j)) mod ?n"
    proof -
      fix j
      have "(?l + int j) mod ?n = (cur + 1 + int j) mod ?n" by (rule mod_add_left_eq)
      then show "(?l + int j) mod ?n = (cur + int (Suc j)) mod ?n" by (simp add: add.assoc)
    qed
    ultimately show ?thesis by (simp add: comp_def)
  qed
  have split: "[Suc 0..<Suc (Suc k)] = Suc 0 # [Suc (Suc 0)..<Suc (Suc k)]"
    by (simp add: upt_conv_Cons del: upt_Suc)
  have "round_robin_loop (Suc k) ss avail cur
          = (if avail (ss ! nat ?l) then Some ?l
             else find (\<lambda>i. avail (ss ! nat i)) (map (\<lambda>j. (cur + int j) mod ?n) [Suc (Suc 0)..<Suc (Suc k)]))"
    by (simp only: round_robin_loop.simps Let_def Suc.IH shift)
  also have "\<dots> = find (\<lambda>i. avail (ss ! nat i)) (map (\<lambda>j. (cur + int j) mod ?n) (Suc 0 # [Suc (Suc 0)..<Suc (Suc k)]))"
    by (simp only: list.map find.simps) simp
  finally show ?case by (simp only: split)
qed

lemma find_SomeD: "find P xs = Some x \<Longrightarrow> P x \<and> x \<in> set xs"
  by (induction xs) (auto split: if_splits)

lemma offsets_shift:
  "map (\<lambda>j. ((cur + 1) mod n + int j) mod n) [Suc 0..<Suc k]
     = map (\<lambda>j. (cur + int j) mod n) [Suc (Suc 0)..<Suc (Suc k)]"
proof -
  have "[Suc (Suc 0)..<Suc (Suc k)] = map Suc [Suc 0..<Suc k]"
    by (simp only: map_Suc_upt)
  moreover have "\<And>j. ((cur + 1) mod n + int j) mod n = (cur + int (Suc j)) mod n"
  proof -
    fix j
    have "((cur + 1) mod n + int j) mod n = (cur + 1 + int j) mod n" by (rule mod_add_left_eq)
    then show "((cur + 1) mod n + int j) mod n = (cur + int (Suc j)) mod n"
      by (simp add: add.assoc)
  qed
  ultimately show ?thesis by (simp add: comp_def)
qed

lemma offset_inj:
  assumes "(cur + int j) mod int n = (cur + int j') mod int n" "j \<le> n" "j' \<le> n" "0 < j" "0 < j'"
  shows "j = j'"
proof -
  from assms(1) have "int n dvd (cur + int j) - (cur + int j')"
    by (simp add: mod_eq_dvd_iff)
  then have d: "int n dvd \<bar>int j - int j'\<bar>" by simp
  have lt: "\<bar>int j - int j'\<bar> < int n" using assms by linarith
  have "\<bar>int j - int j'\<bar> = 0"
  proof (rule ccontr)
    assume "\<bar>int j - int j'\<bar> \<noteq> 0"
    then have "0 < \<bar>int j - int j'\<bar>" by simp
    from zdvd_not_zless [OF this lt] d show False by simp
  qed
  then show ?thesis by simp
qed

lemma offset_range: "0 < n \<Longrightarrow> 0 \<le> (cur + int j) mod int n \<and> (cur + int j) mod int n < int n"
  by simp

lemma offsets_distinct: "distinct (map (\<lambda>j. (cur + int j) mod int n) [Suc 0..<Suc n])"
proof -
  have "inj_on (\<lambda>j. (cur + int j) mod int n) (set [Suc 0..<Suc n])"
    by (rule inj_onI) (auto intro: offset_inj)
  then show ?thesis by (simp add: distinct_map)
qed

lemma offsets_set:
  assumes "0 < n"
  shows "set (map (\<lambda>j. (cur + int j) mod int n) [Suc 0..<Suc n]) = {0..<int n}"
proof (rule card_subset_eq)
  show "finite {0..<int n}" by simp
  show "set (map (\<lambda>j. (cur + int j) mod int n) [Suc 0..<Suc n]) \<subseteq> {0..<int n}"
    using assms by auto
  have "card (set (map (\<lambda>j. (cur + int j) mod int n) [Suc 0..<Suc n]))
          = length (map (\<lambda>j. (cur + int j) mod int n) [Suc 0..<Suc n])"
    using offsets_distinct by (rule distinct_card)
  then show "card (set (map (\<lambda>j. (cur + int j) mod int n) [Suc 0..<Suc n])) = card {0..<int n}"
    by simp
qed

lemma nth_in_sessions: "ss \<noteq> [] \<Longrightarrow> ss ! nat ((c + int j) mod int (length ss)) \<in> set ss"
proof -
  assume "ss \<noteq> []"
  then have "0 < length ss" by simp
  then have "nat ((c + int j) mod int (length ss)) < length ss"
    by (simp add: nat_less_iff)
  then show ?thesis by (rule nth_mem)
qed

lemma choose_round_robin:
  assumes "mode \<noteq> ''single_account''" "mode \<noteq> ''random''"
  shows "choose_sender_index draw mode ss cur du now pb =
           (if ss = [] then None
            else find (\<lambda>i. is_available pb du now (ss ! nat i))
                      (map (\<lambda>k. (cur + int k) mod int (length ss)) [Suc 0..<Suc (length ss)]))"
  using assms by (simp add: choose_sender_index_def Let_def round_robin_loop_find)

lemma choose_round_robin_all:
  assumes "mode \<noteq> ''single_account''" "mode \<noteq> ''random''" "ss \<noteq> []"
    and "\<forall>s \<in> set ss. is_available pb du now s"
  shows "choose_sender_index draw mode ss cur du now pb = Some ((cur + 1) mod int (length ss))"
proof -
  from assms(3) obtain m where m: "length ss = Suc m" by (cases ss) auto
  have "ss ! nat ((cur + int 1) mod int (length ss)) \<in> set ss"
    using assms(3) by (rule nth_in_sessions)
  with assms(4) have "is_available pb du now (ss ! nat ((cur + 1) mod int (length ss)))"
    by simp
  then have "round_robin_loop (Suc m) ss (is_available pb du now) cur
               = Some ((cur + 1) mod int (length ss))"
    by (simp add: Let_def)
  with assms(1,2,3) m show ?thesis
    by (simp add: choose_sender_index_def Let_def)
qed

lemma consecutive_round_robin:
  assumes "mode \<noteq> ''single_account''" "mode \<noteq> ''random''" "ss \<noteq> []"
    and "\<forall>s \<in> set ss. is_available pb du now s"
  shows "consecutive_selections k draw mode ss cur du now pb
           = map (\<lambda>j. (cur + int j) mod int (length ss)) [Suc 0..<Suc k]"
proof (induction k arbitrary: cur)
  case 0
  then show ?case by simp
next
  case (Suc k)
  let ?n = "int (length ss)"
  have "consecutive_selections (Suc k) draw mode ss cur du now pb
          = (cur + 1) mod ?n # map (\<lambda>j. ((cur + 1) mod ?n + int j) mod ?n) [Suc 0..<Suc k]"
    by (simp only: consecutive_selections.simps choose_round_robin_all [OF assms] option.case Suc.IH)
  also have "\<dots> = map (\<lambda>j. (cur + int j) mod ?n) (Suc 0 # [Suc (Suc 0)..<Suc (Suc k)])"
    by (simp only: offsets_shift list.map) simp
  also have "Suc 0 # [Suc (Suc 0)..<Suc (Suc k)] = [Suc 0..<Suc (Suc k)]"
    by (simp add: upt_conv_Cons del: upt_Suc)
  finally show ?case .
qed

lemma choose_Some_available:
  assumes some: "choose_sender_index draw mode ss cur du now pb = Some i"
  shows "0 \<le> i \<and> i < int (length ss) \<and> is_available pb du now (ss ! nat i)"
proof -
  from some have ne: "ss \<noteq> []" by (auto simp: choose_sender_index_def)
  then have pos: "0 < length ss" by simp
  show ?thesis
  proof (cases "mode = ''single_account''")
    case True
    with some ne pos show ?thesis
      by (auto simp: choose_sender_index_def Let_def split: if_splits)
  next
    case single: False
    show ?thesis
    proof (cases "mode = ''random''")
      case True
      with some single ne obtain j
        where j: "find (\<lambda>i. is_available pb du now (ss ! i)) (shuffle draw [0..<length ss]) = Some j"
          and i: "i = int j"
        by (auto simp: choose_sender_index_def Let_def split: option.splits)
      from find_SomeD [OF j] have "is_available pb du now (ss ! j)" "j < length ss"
        by (simp_all add: set_shuffle)
      with i show ?thesis by simp
    next
      case False
      with single some ne
      have "find (\<lambda>i. is_available pb du now (ss ! nat i))
                 (map (\<lambda>k. (cur + int k) mod int (length ss)) [Suc 0..<Suc (length ss)]) = Some i"
        by (simp add: choose_round_robin)
      from find_SomeD [OF this] pos show ?thesis by auto
    qed
  qed
qed

lemma choose_None_unavailable:
  assumes none: "\<forall>s \<in> set ss. \<not> is_available pb du now s"
  shows "choose_sender_index draw mode ss cur du now pb = None"
proof -
  show ?thesis
  proof (cases "ss = []")
    case True
    then show ?thesis by (simp add: choose_sender_index_def)
  next
    case ne: False
    then have pos: "0 < length ss" by simp
    show ?thesis
    proof (cases "mode = ''single_account''")
      case True
      from pos have "ss ! 0 \<in> set ss" by (rule nth_mem)
      with none True show ?thesis by (simp add: choose_sender_index_def Let_def)
    next
      case single: False
      show ?thesis
      proof (cases "mode = ''random''")
        case True
        have "find (\<lambda>i. is_available pb du now (ss ! i)) (shuffle draw [0..<length ss]) = None"
          using none by (auto simp: find_None_iff set_shuffle)
        with True ne show ?thesis by (simp add: choose_sender_index_def Let_def)
      next
        case False
        have "find (\<lambda>i. is_available pb du now (ss ! nat i))
                   (map (\<lambda>k. (cur + int k) mod int (length ss)) [Suc 0..<Suc (length ss)]) = None"
          using none nth_in_sessions [OF ne] by (auto simp: find_None_iff simp del: upt_Suc)
        with single False ne show ?thesis by (simp add: choose_round_robin)
      qed
    qed
  qed
qed

section \<open>Properties of the send step\<close>

lemma send_at_cap:
  "(case send_counter st s of None \<Rightarrow> 0 | Some c \<Rightarrow> c) \<ge> 2 \<Longrightarrow>
   send_one_message now u oc s uname st
     = (False, st\<lparr>disabled_until := (disabled_until st)(s \<mapsto> now + random_uniform 20 40 u)\<rparr>)"
  by (simp add: send_one_message_def Let_def)

lemma send_below_cap:
  "(case send_counter st s of None \<Rightarrow> 0 | Some c \<Rightarrow> c) < 2 \<Longrightarrow>
   send_one_message now u oc s uname st =
     (let count = (case send_counter st s of None \<Rightarrow> 0 | Some c \<Rightarrow> c);
          st1 = st\<lparr>transport_calls := transport_calls st @ [(s, uname, oc)]\<rparr>
      in case oc of
           Delivered \<Rightarrow>
             (True, st1\<lparr>send_counter := (send_counter st)(s \<mapsto> count + 1),
                        sent_hist := (sent_hist st)(NameKey (lower uname) \<mapsto> Secs now)\<rparr>)
         | PeerFlood \<Rightarrow> (False, st1\<lparr>disabled_until := (disabled_until st)(s \<mapsto> now + 21600)\<rparr>)
         | UserPrivacyRestricted \<Rightarrow> (False, st1)
         | BadRequest \<Rightarrow> (False, st1)
         | FloodWait server_wait seconds \<Rightarrow>
             (False, st1\<lparr>disabled_until :=
                (disabled_until st)(s \<mapsto> now + real_of_int (case seconds of None \<Rightarrow> 60 | Some w \<Rightarrow> w) + 2)\<rparr>)
         | OtherException \<Rightarrow> (False, st1\<lparr>disabled_until := (disabled_until st)(s \<mapsto> now + 300)\<rparr>))"
  by (cases oc) (simp_all add: send_one_message_def Let_def)

lemma send_ok_iff:
  "fst (send_one_message now u oc s uname st)
     \<longleftrightarrow> (case send_counter st s of None \<Rightarrow> 0 | Some c \<Rightarrow> c) < 2 \<and> oc = Delivered"
  by (cases oc) (simp_all add: send_one_message_def Let_def)

lemma random_uniform_range:
  "0 \<le> u \<Longrightarrow> u \<le> 1 \<Longrightarrow> 20 \<le> random_uniform 20 40 u \<and> random_uniform 20 40 u \<le> 40"
  by (simp add: random_uniform_def)

lemma cooling_not_chosen:
  assumes "du s = Some c" and "t < c"
    and "choose_sender_index draw mode ss cur du t pb = Some i"
  shows "ss ! nat i \<noteq> s"
proof
  assume "ss ! nat i = s"
  moreover from choose_Some_available [OF assms(3)]
  have "is_available pb du t (ss ! nat i)" by blast
  ultimately show False using assms(1,2) by (simp add: is_available_def split: if_splits)
qed

lemma settle_fields:
  "disabled_until (send_and_settle a flow key s username uname st)
     = disabled_until (snd (send_one_message (now_ts a) (uniform_u a) (outcome a) s uname st))"
  "sent_hist (send_and_settle a flow key s username uname st)
     = sent_hist (snd (send_one_message (now_ts a) (uniform_u a) (outcome a) s uname st))"
  "send_counter (send_and_settle a flow key s username uname st)
     = send_counter (snd (send_one_message (now_ts a) (uniform_u a) (outcome a) s uname st))"
  "transport_calls (send_and_settle a flow key s username uname st)
     = transport_calls (snd (send_one_message (now_ts a) (uniform_u a) (outcome a) s uname st))"
  by (simp_all add: send_and_settle_def Let_def split: prod.splits)

lemma send_keeps_cap:
  assumes "int (deliveries s st) = (case send_counter st s of None \<Rightarrow> 0 | Some c \<Rightarrow> c)"
    and "(case send_counter st s of None \<Rightarrow> 0 | Some c \<Rightarrow> c) \<le> 2"
  shows "int (deliveries s (snd (send_one_message now u oc s' uname st)))
           = (case send_counter (snd (send_one_message now u oc s' uname st)) s of None \<Rightarrow> 0 | Some c \<Rightarrow> c)
       \<and> (case send_counter (snd (send_one_message now u oc s' uname st)) s of None \<Rightarrow> 0 | Some c \<Rightarrow> c) \<le> 2"
proof (cases "(case send_counter st s' of None \<Rightarrow> 0 | Some c \<Rightarrow> c) \<ge> 2")
  case True
  with assms show ?thesis by (simp add: send_at_cap deliveries_def)
next
  case False
  then have lt: "(case send_counter st s' of None \<Rightarrow> 0 | Some c \<Rightarrow> c) < 2" by simp
  show ?thesis
  proof (cases "s' = s")
    case True
    with assms lt show ?thesis
      by (cases oc) (simp_all add: send_below_cap Let_def deliveries_def)
  next
    case False
    with assms lt show ?thesis
      by (cases oc) (simp_all add: send_below_cap Let_def deliveries_def)
  qed
qed

lemma send_run_keeps_cap:
  assumes "int (deliveries s st) = (case send_counter st s of None \<Rightarrow> 0 | Some c \<Rightarrow> c)"
    and "(case send_counter st s of None \<Rightarrow> 0 | Some c \<Rightarrow> c) \<le> 2"
  shows "int (deliveries s (send_run flow key attempts st))
           = (case send_counter (send_run flow key attempts st) s of None \<Rightarrow> 0 | Some c \<Rightarrow> c)
       \<and> (case send_counter (send_run flow key attempts st) s of None \<Rightarrow> 0 | Some c \<Rightarrow> c) \<le> 2"
  using assms
proof (induction attempts arbitrary: st)
  case Nil
  then show ?case by simp
next
  case (Cons x attempts)
  obtain a s' username uname where x: "x = (a, s', username, uname)" by (cases x) auto
  let ?st1 = "send_and_settle a flow key s' username uname st"
  from send_keeps_cap [OF Cons.prems, of "now_ts a" "uniform_u a" "outcome a" s' uname]
  have "int (deliveries s ?st1) = (case send_counter ?st1 s of None \<Rightarrow> 0 | Some c \<Rightarrow> c)
        \<and> (case send_counter ?st1 s of None \<Rightarrow> 0 | Some c \<Rightarrow> c) \<le> 2"
    by (simp add: settle_fields deliveries_def)
  then show ?case using Cons.IH [of ?st1] by (simp add: x)
qed

lemma deliveries_capped:
  "deliveries s (send_run flow key attempts (start_flow_run qf st0)) \<le> 2"
proof -
  have "int (deliveries s (start_flow_run qf st0))
          = (case send_counter (start_flow_run qf st0) s of None \<Rightarrow> 0 | Some c \<Rightarrow> c)"
       "(case send_counter (start_flow_run qf st0) s of None \<Rightarrow> 0 | Some c \<Rightarrow> c) \<le> 2"
    by (simp_all add: start_flow_run_def deliveries_def)
  from send_run_keeps_cap [OF this, of flow key attempts] show ?thesis by linarith
qed

lemma send_keeps_files:
  "queue_file (snd (send_one_message now u oc s uname st)) = queue_file st"
  "send_log (snd (send_one_message now u oc s uname st)) = send_log st"
  "sent_history_file (snd (send_one_message now u oc s uname st)) = sent_history_file st"
  by (cases oc; simp add: send_one_message_def Let_def)+

lemma settle_failed:
  "\<not> fst (send_one_message (now_ts a) (uniform_u a) (outcome a) s uname st) \<Longrightarrow>
   send_and_settle a flow key s username uname st
     = (snd (send_one_message (now_ts a) (uniform_u a) (outcome a) s uname st))
         \<lparr>queue_file := fst (move_line_to_end_atomic (queue_file st) username)\<rparr>"
proof -
  assume nok: "\<not> fst (send_one_message (now_ts a) (uniform_u a) (outcome a) s uname st)"
  obtain ok st1 where e: "send_one_message (now_ts a) (uniform_u a) (outcome a) s uname st = (ok, st1)"
    by (cases "send_one_message (now_ts a) (uniform_u a) (outcome a) s uname st")
  from send_keeps_files [of "now_ts a" "uniform_u a" "outcome a" s uname st]
  have k: "queue_file st1 = queue_file st" by (simp add: e)
  from nok show ?thesis by (simp add: send_and_settle_def e k)
qed

lemma settle_ok:
  "fst (send_one_message (now_ts a) (uniform_u a) (outcome a) s uname st) \<Longrightarrow>
   send_and_settle a flow key s username uname st
     = (snd (send_one_message (now_ts a) (uniform_u a) (outcome a) s uname st))
         \<lparr>send_log := append_send_log (send_log st) [log_stamp a, uname, flow, s, ''OK'', ''''],
          queue_file := remove_username_from_file_atomic (queue_file st) username,
          sent_history_file := append_sent_history (sent_history_file st) uname key (history_stamp a)\<rparr>"
proof -
  assume ok: "fst (send_one_message (now_ts a) (uniform_u a) (outcome a) s uname st)"
  obtain b st1 where e: "send_one_message (now_ts a) (uniform_u a) (outcome a) s uname st = (b, st1)"
    by (cases "send_one_message (now_ts a) (uniform_u a) (outcome a) s uname st")
  from send_keeps_files [of "now_ts a" "uniform_u a" "outcome a" s uname st]
  have k: "queue_file st1 = queue_file st" "send_log st1 = send_log st"
          "sent_history_file st1 = sent_history_file st"
    by (simp_all add: e)
  from ok show ?thesis by (simp add: send_and_settle_def e k Let_def)
qed


lemma settle_log:
  "send_log (send_and_settle a flow key s username uname st)
     = (if fst (send_one_message (now_ts a) (uniform_u a) (outcome a) s uname st)
        then append_send_log (send_log st) [log_stamp a, uname, flow, s, ''OK'', '''']
        else send_log st)"
  by (simp add: settle_ok settle_failed send_keeps_files)

lemma append_send_log_grows: "\<exists>more. rows_of (append_send_log f row) = rows_of f @ more"
  by (cases f) (simp_all add: append_send_log_def rows_of_def)

lemma settle_log_grows:
  "\<exists>more. rows_of (send_log (send_and_settle a flow key s username uname st))
             = rows_of (send_log st) @ more"
  using append_send_log_grows [of "send_log st" "[log_stamp a, uname, flow, s, ''OK'', '''']"]
  by (simp add: settle_log)

lemma run_log_grows:
  "\<exists>more. rows_of (send_log (send_run flow key rest st)) = rows_of (send_log st) @ more"
proof (induction rest arbitrary: st)
  case Nil
  then show ?case by simp
next
  case (Cons x rest)
  obtain a s username uname where x: "x = (a, s, username, uname)" by (cases x) auto
  let ?st1 = "send_and_settle a flow key s username uname st"
  from settle_log_grows [of a flow key s username uname st]
  obtain m1 where m1: "rows_of (send_log ?st1) = rows_of (send_log st) @ m1" by blast
  from Cons.IH [of ?st1]
  obtain m2 where m2: "rows_of (send_log (send_run flow key rest ?st1)) = rows_of (send_log ?st1) @ m2"
    by blast
  have "rows_of (send_log (send_run flow key (x # rest) st)) = rows_of (send_log st) @ (m1 @ m2)"
    by (simp add: x m1 m2)
  then show ?case by blast
qed


lemma temporary_failure_effects:
  assumes "(case send_counter st s of None \<Rightarrow> 0 | Some c \<Rightarrow> c) < 2"
    and "outcome a \<noteq> Delivered" and "outcome a \<noteq> UserPrivacyRestricted"
    and "outcome a \<noteq> BadRequest"
    and "username \<in> set (read_lines_unique (queue_file st))"
  shows "let st' = send_and_settle a flow key s username uname st;
             d = (case outcome a of
                    PeerFlood \<Rightarrow> 6 * 3600
                  | FloodWait server_wait seconds \<Rightarrow>
                      real_of_int (case seconds of None \<Rightarrow> 60 | Some w \<Rightarrow> w) + 2
                  | _ \<Rightarrow> 300)
         in read_lines_unique (queue_file st')
              = remove1 username (read_lines_unique (queue_file st)) @ [username]
          \<and> sent_history_file st' = sent_history_file st
          \<and> sent_hist st' = sent_hist st
          \<and> disabled_until st' = (disabled_until st)(s \<mapsto> now_ts a + d)
          \<and> (\<forall>t pb. t < now_ts a + d \<longrightarrow> \<not> is_available pb (disabled_until st') t s)"
proof -
  have nok: "\<not> fst (send_one_message (now_ts a) (uniform_u a) (outcome a) s uname st)"
    using assms(2) by (simp add: send_ok_iff)
  note st' = settle_failed [OF nok, of flow key username]
  have q: "read_lines_unique (fst (move_line_to_end_atomic (queue_file st) username))
             = remove1 username (read_lines_unique (queue_file st)) @ [username]"
    using assms(5) by (rule read_after_move)
  show ?thesis
    using assms(1-4) q
    by (cases "outcome a")
       (simp_all add: st' send_below_cap Let_def is_available_def add.assoc)
qed

lemma within_history_window_iff:
  "within_history_window hist r v days now = Inr True
     \<longleftrightarrow> (\<exists>t0. hist (PairKey r v) = Some (Stamp (Aware t0)) \<and> \<bar>days\<bar> \<le> 999999999
               \<and> now - t0 < days * 86400000000)"
  by (auto simp: within_history_window_def timedelta_days_def
           split: option.splits hist_val.splits datetime.splits if_splits)


lemma cap_effects:
  assumes cap: "(case send_counter st s of None \<Rightarrow> 0 | Some c \<Rightarrow> c) \<ge> 2"
  shows "send_one_message now u oc s uname st
          = (False, st\<lparr>disabled_until := (disabled_until st)(s \<mapsto> now + random_uniform 20 40 u)\<rparr>)
      \<and> transport_calls (snd (send_one_message now u oc s uname st)) = transport_calls st
      \<and> send_counter (snd (send_one_message now u oc s uname st)) = send_counter st
      \<and> (0 \<le> u \<and> u \<le> 1 \<longrightarrow>
            now + 20 \<le> now + random_uniform 20 40 u \<and> now + random_uniform 20 40 u \<le> now + 40)
      \<and> (\<forall>draw mode ss cur t pb i.
            t < now + random_uniform 20 40 u \<and>
            choose_sender_index draw mode ss cur
              (disabled_until (snd (send_one_message now u oc s uname st))) t pb = Some i
            \<longrightarrow> ss ! nat i \<noteq> s)"
proof (intro conjI impI)
  note eq = send_at_cap [OF cap, of now u oc uname]
  show "send_one_message now u oc s uname st
          = (False, st\<lparr>disabled_until := (disabled_until st)(s \<mapsto> now + random_uniform 20 40 u)\<rparr>)"
    by (rule eq)
  show "transport_calls (snd (send_one_message now u oc s uname st)) = transport_calls st"
    by (simp add: eq)
  show "send_counter (snd (send_one_message now u oc s uname st)) = send_counter st"
    by (simp add: eq)
  show "\<forall>draw mode ss cur t pb i.
            t < now + random_uniform 20 40 u \<and>
            choose_sender_index draw mode ss cur
              (disabled_until (snd (send_one_message now u oc s uname st))) t pb = Some i
            \<longrightarrow> ss ! nat i \<noteq> s"
  proof (intro allI impI)
    fix draw mode ss cur t pb i
    assume h: "t < now + random_uniform 20 40 u \<and>
            choose_sender_index draw mode ss cur
              (disabled_until (snd (send_one_message now u oc s uname st))) t pb = Some i"
    have d: "disabled_until (snd (send_one_message now u oc s uname st)) s
            = Some (now + random_uniform 20 40 u)"
      by (simp add: eq)
    from h show "ss ! nat i \<noteq> s"
      using cooling_not_chosen
              [of "disabled_until (snd (send_one_message now u oc s uname st))" s
                  "now + random_uniform 20 40 u" t draw mode ss cur pb i] d
      by blast
  qed
next
  assume "0 \<le> u \<and> u \<le> 1"
  then show "now + 20 \<le> now + random_uniform 20 40 u" using random_uniform_range [of u] by simp
next
  assume "0 \<le> u \<and> u \<le> 1"
  then show "now + random_uniform 20 40 u \<le> now + 40" using random_uniform_range [of u] by simp
qed

lemma run_counter:
  "(case send_counter (send_run flow key attempts (start_flow_run qf st0)) s of
      None \<Rightarrow> 0 | Some c \<Rightarrow> c)
     = int (deliveries s (send_run flow key attempts (start_flow_run qf st0)))"
proof -
  have "int (deliveries s (start_flow_run qf st0))
          = (case send_counter (start_flow_run qf st0) s of None \<Rightarrow> 0 | Some c \<Rightarrow> c)"
       "(case send_counter (start_flow_run qf st0) s of None \<Rightarrow> 0 | Some c \<Rightarrow> c) \<le> 2"
    by (simp_all add: start_flow_run_def deliveries_def)
  from send_run_keeps_cap [OF this, of flow key attempts] show ?thesis by simp
qed


section \<open>The queue contract\<close>

lemma filter_neq_remove1: "filter (\<lambda>l. l \<noteq> x) (remove1 x xs) = filter (\<lambda>l. l \<noteq> x) xs"
  by (induction xs) auto

text \<open>
  Claim C8. \<open>move_line_to_end_atomic\<close> returns true exactly when the line is in the
  loaded queue. When it is absent the file is left as it was. When it is present the
  loaded queue afterwards is the old one with the first occurrence of the line taken out
  and the line put at the end, so the other entries keep their relative order; a second
  call with the same line returns the same flag and leaves the loaded queue as the first
  call made it, and on a queue \<open>[a, b, c]\<close> moving \<open>b\<close> gives \<open>[a, c, b]\<close>.
\<close>

theorem move_line_to_end_contract:
  "(case move_line_to_end_atomic qf line of
      (qf', moved) \<Rightarrow>
        let q = read_lines_unique qf; q' = read_lines_unique qf' in
          moved = (line \<in> set q)
        \<and> (line \<notin> set q \<longrightarrow> qf' = qf)
        \<and> (line \<in> set q \<longrightarrow> q' = remove1 line q @ [line])
        \<and> filter (\<lambda>l. l \<noteq> line) q' = filter (\<lambda>l. l \<noteq> line) q
        \<and> (case move_line_to_end_atomic qf' line of
              (qf'', moved') \<Rightarrow> moved' = moved \<and> read_lines_unique qf'' = q')
        \<and> (\<forall>a b c. q = [a, b, c] \<and> line = b \<longrightarrow> q' = [a, c, b]))"
proof (cases "line \<in> set (read_lines_unique qf)")
  case False
  then show ?thesis by (auto simp: move_result Let_def)
next
  case True
  let ?q = "read_lines_unique qf"
  let ?qf' = "fst (move_line_to_end_atomic qf line)"
  let ?q' = "remove1 line ?q @ [line]"
  have d: "distinct ?q" by (rule read_lines_unique_distinct)
  have m: "move_line_to_end_atomic qf line = (?qf', True)"
    using True by (simp add: move_result)
  have q': "read_lines_unique ?qf' = ?q'" using True by (rule read_after_move)
  have in': "line \<in> set (read_lines_unique ?qf')" by (simp add: q')
  have notin: "line \<notin> set (remove1 line ?q)" using d by simp
  have again: "remove1 line ?q' @ [line] = ?q'"
    using notin by (simp add: remove1_append)
  have m2: "move_line_to_end_atomic ?qf' line = (fst (move_line_to_end_atomic ?qf' line), True)"
    using in' by (simp add: move_result)
  have q'': "read_lines_unique (fst (move_line_to_end_atomic ?qf' line)) = ?q'"
    using read_after_move [OF in'] again by (simp add: q')
  have flt: "filter (\<lambda>l. l \<noteq> line) ?q' = filter (\<lambda>l. l \<noteq> line) ?q"
    by (simp add: filter_neq_remove1)
  have ex: "\<forall>a b c. ?q = [a, b, c] \<and> line = b \<longrightarrow> ?q' = [a, c, b]"
    using d by auto
  show ?thesis
    apply (subst m)
    apply (simp only: prod.case Let_def q')
    apply (subst m2)
    apply (simp only: prod.case q'')
    using True flt ex by simp
qed

theorem move_line_to_end_contract_witness:
  "''b'' \<in> set (read_lines_unique (Some [CHR ''a'', LF, CHR ''b'', LF, CHR ''c'', LF]))
   \<and> move_line_to_end_atomic (Some [CHR ''a'', LF, CHR ''b'', LF, CHR ''c'', LF]) ''b''
       = (Some [CHR ''a'', LF, CHR ''c'', LF, CHR ''b'', LF], True)
   \<and> read_lines_unique (Some [CHR ''a'', LF, CHR ''c'', LF, CHR ''b'', LF]) = [''a'', ''c'', ''b'']
   \<and> ''z'' \<notin> set (read_lines_unique (Some [CHR ''a'', LF, CHR ''b'', LF, CHR ''c'', LF]))
   \<and> move_line_to_end_atomic (Some [CHR ''a'', LF, CHR ''b'', LF, CHR ''c'', LF]) ''z''
       = (Some [CHR ''a'', LF, CHR ''b'', LF, CHR ''c'', LF], False)"
proof -
  let ?f = "Some [CHR ''a'', LF, CHR ''b'', LF, CHR ''c'', LF]"
  have q: "read_lines_unique ?f = [''a'', ''b'', ''c'']" by code_simp
  have w: "move_line_to_end_atomic ?f ''b'' = (Some [CHR ''a'', LF, CHR ''c'', LF, CHR ''b'', LF], True)"
    by code_simp
  have q2: "read_lines_unique (Some [CHR ''a'', LF, CHR ''c'', LF, CHR ''b'', LF]) = [''a'', ''c'', ''b'']"
    using move_line_to_end_contract [of ?f "''b''"] by (simp add: w q Let_def)
  have z: "move_line_to_end_atomic ?f ''z'' = (?f, False)"
    using move_line_to_end_contract [of ?f "''z''"] by (auto simp: q Let_def split: prod.splits)
  show ?thesis using q w q2 z by simp
qed

lemma append_all_snoc:
  "append_all qf (rs @ [r]) = fst (append_unique_line (append_all qf rs) r)"
  by (induction rs arbitrary: qf) auto

lemma written_tokens:
  "\<forall>l \<in> set ls. recipient_token l \<Longrightarrow> stripped_lines (concat (map (\<lambda>l. l @ [LF]) ls)) = ls"
proof -
  assume a: "\<forall>l \<in> set ls. recipient_token l"
  then have "map (\<lambda>l. rstrip_nl l @ [LF]) ls = map (\<lambda>l. l @ [LF]) ls"
    by (simp add: rstrip_nl_token)
  with stripped_lines_written [OF a] show ?thesis by simp
qed

lemma append_all_content:
  assumes "qf = None \<or> qf = Some []" and "\<forall>r \<in> set rs. recipient_token r"
  shows "(case append_all qf rs of None \<Rightarrow> [] | Some c \<Rightarrow> c)
           = concat (map (\<lambda>l. l @ [LF]) (first_seen rs))"
  using assms(2)
proof (induction rs rule: rev_induct)
  case Nil
  with assms(1) show ?case by (auto simp: first_seen_def)
next
  case (snoc r rs)
  let ?c = "case append_all qf rs of None \<Rightarrow> [] | Some c \<Rightarrow> c"
  from snoc have c: "?c = concat (map (\<lambda>l. l @ [LF]) (first_seen rs))" by simp
  from snoc.prems have "\<forall>l \<in> set (first_seen rs). recipient_token l"
    by (simp add: set_first_seen)
  then have sl: "stripped_lines ?c = first_seen rs"
    by (simp add: c written_tokens)
  show ?case
    by (simp add: append_all_snoc append_unique_line_def Let_def sl set_first_seen
                  first_seen_snoc c [symmetric])
qed

lemma read_append_all:
  assumes "qf = None \<or> qf = Some []" and "\<forall>r \<in> set rs. recipient_token r"
  shows "read_lines_unique (append_all qf rs) = first_seen rs"
proof -
  from assms(2) have t: "\<forall>l \<in> set (first_seen rs). recipient_token l"
    by (simp add: set_first_seen)
  have "read_lines_unique (append_all qf rs)
          = read_lines_unique (Some (case append_all qf rs of None \<Rightarrow> [] | Some c \<Rightarrow> c))"
    by (cases "append_all qf rs")
       (simp_all add: read_lines_unique_def stripped_lines_def)
  also have "\<dots> = first_seen (first_seen rs)"
    by (simp add: read_lines_unique_Some append_all_content [OF assms] written_tokens [OF t])
  also have "\<dots> = first_seen rs"
    by (simp add: first_seen_distinct distinct_first_seen)
  finally show ?thesis .
qed

lemma append_flag: "snd (append_unique_line f r) = (r \<notin> set (read_lines_unique f))"
  by (cases f)
     (auto simp: append_unique_line_def Let_def read_lines_unique_def [of None]
                 read_lines_unique_Some set_first_seen stripped_lines_def)

text \<open>
  Claim C7. A recipient is a token as the listener writes it and as the queue file holds
  it: not blank, without surrounding white space, on one line. Starting from a missing
  or empty queue file, after any sequence of \<open>append_unique_line\<close> calls with
  recipients, \<open>read_lines_unique\<close> returns each distinct appended recipient exactly once,
  in the order of first appending, and a further \<open>append_unique_line\<close> returns true
  exactly when its line is not among those appended before. On every file
  \<open>append_unique_line\<close> returns true exactly when the line is not among the loaded
  ones, a load never returns a blank or unstripped entry, and a missing file loads as
  the empty list.
\<close>

theorem append_unique_line_dedup:
  "((qf = None \<or> qf = Some []) \<and> (\<forall>x \<in> set rs. recipient_token x) \<longrightarrow>
        read_lines_unique (append_all qf rs) = first_seen rs
      \<and> distinct (read_lines_unique (append_all qf rs))
      \<and> set (read_lines_unique (append_all qf rs)) = set rs
      \<and> snd (append_unique_line (append_all qf rs) r) = (r \<notin> set rs))
   \<and> snd (append_unique_line f r) = (r \<notin> set (read_lines_unique f))
   \<and> (\<forall>l \<in> set (read_lines_unique f). l \<noteq> [] \<and> strip l = l)
   \<and> read_lines_unique None = []"
  using read_lines_unique_tokens [of _ f]
  by (auto simp: read_append_all distinct_first_seen set_first_seen append_flag
                 recipient_token_def read_lines_unique_def [of None])

theorem append_unique_line_dedup_witness:
  "recipient_token ''@alice'' \<and> recipient_token ''@bob''
   \<and> read_lines_unique (append_all None [''@alice'', ''@bob'', ''@alice'']) = [''@alice'', ''@bob'']
   \<and> snd (append_unique_line (append_all None [''@alice'', ''@bob'']) ''@alice'') = False
   \<and> snd (append_unique_line (append_all None [''@alice'']) ''@bob'') = True"
proof -
  have t: "recipient_token ''@alice''" "recipient_token ''@bob''" by code_simp+
  have fs: "first_seen [''@alice'', ''@bob'', ''@alice''] = [''@alice'', ''@bob'']"
    by (simp add: first_seen_def)
  have a: "read_lines_unique (append_all None [''@alice'', ''@bob'', ''@alice'']) = [''@alice'', ''@bob'']"
    using append_unique_line_dedup [of None "[''@alice'', ''@bob'', ''@alice'']"] t fs by simp
  have t2: "\<forall>x \<in> set [''@alice'', ''@bob'']. recipient_token x" using t by simp
  have t1: "\<forall>x \<in> set [''@alice'']. recipient_token x" using t by simp
  from append_unique_line_dedup [of None "[''@alice'', ''@bob'']" "''@alice''" None] t2
  have "snd (append_unique_line (append_all None [''@alice'', ''@bob'']) ''@alice'')
          = (''@alice'' \<notin> set [''@alice'', ''@bob''])"
    by blast
  then have b: "snd (append_unique_line (append_all None [''@alice'', ''@bob'']) ''@alice'') = False"
    by (simp del: append_all.simps)
  from append_unique_line_dedup [of None "[''@alice'']" "''@bob''" None] t1
  have "snd (append_unique_line (append_all None [''@alice'']) ''@bob'')
          = (''@bob'' \<notin> set [''@alice''])"
    by blast
  then have c: "snd (append_unique_line (append_all None [''@alice'']) ''@bob'') = True"
    by (simp del: append_all.simps)
  show ?thesis using t a b c by (simp del: append_all.simps)
qed

section \<open>The selector contract\<close>

text \<open>
  Claim C6. In round-robin mode (every mode other than \<open>single_account\<close> and
  \<open>random\<close>) a selection call steps the cursor by one position at a time, modulo
  the pool size, testing availability after each step, for at most one full cycle: it
  returns the first available index among \<open>cursor + 1, \<dots>, cursor + n\<close> (modulo
  \<open>n\<close>), or \<open>None\<close> when there is none. Hence with all \<open>n\<close> sessions available,
  \<open>n\<close> consecutive selections, each starting from the index the previous one
  returned, return \<open>n\<close> different indices that cover the whole pool, and the next
  selection returns the first of them again.
\<close>

theorem round_robin_selection:
  assumes "mode \<noteq> ''single_account''" and "mode \<noteq> ''random''"
  shows "choose_sender_index draw mode ss cur du now pb =
           (if ss = [] then None
            else find (\<lambda>i. is_available pb du now (ss ! nat i))
                      (map (\<lambda>k. (cur + int k) mod int (length ss)) [1..<Suc (length ss)]))
       \<and> ((\<forall>s \<in> set ss. is_available pb du now s) \<longrightarrow>
             consecutive_selections (length ss) draw mode ss cur du now pb
               = map (\<lambda>k. (cur + int k) mod int (length ss)) [1..<Suc (length ss)]
           \<and> length (consecutive_selections (length ss) draw mode ss cur du now pb) = length ss
           \<and> distinct (consecutive_selections (length ss) draw mode ss cur du now pb)
           \<and> set (consecutive_selections (length ss) draw mode ss cur du now pb) = {0..<int (length ss)}
           \<and> (ss \<noteq> [] \<longrightarrow>
                 consecutive_selections (Suc (length ss)) draw mode ss cur du now pb ! length ss
                   = consecutive_selections (length ss) draw mode ss cur du now pb ! 0))"
proof (intro conjI impI)
  show "choose_sender_index draw mode ss cur du now pb =
           (if ss = [] then None
            else find (\<lambda>i. is_available pb du now (ss ! nat i))
                      (map (\<lambda>k. (cur + int k) mod int (length ss)) [1..<Suc (length ss)]))"
    using choose_round_robin [OF assms] by simp
next
  assume all: "\<forall>s \<in> set ss. is_available pb du now s"
  have sel: "consecutive_selections k draw mode ss cur du now pb
               = map (\<lambda>j. (cur + int j) mod int (length ss)) [Suc 0..<Suc k]"
    if "ss \<noteq> [] \<or> k = 0" for k
  proof (cases "ss = []")
    case True
    with that show ?thesis by simp
  next
    case False
    from assms False all show ?thesis by (rule consecutive_round_robin)
  qed
  have seln: "consecutive_selections (length ss) draw mode ss cur du now pb
               = map (\<lambda>j. (cur + int j) mod int (length ss)) [Suc 0..<Suc (length ss)]"
    by (rule sel) auto
  show "consecutive_selections (length ss) draw mode ss cur du now pb
          = map (\<lambda>k. (cur + int k) mod int (length ss)) [1..<Suc (length ss)]"
    using seln by simp
  show "length (consecutive_selections (length ss) draw mode ss cur du now pb) = length ss"
    by (simp only: seln length_map length_upt)
  show "distinct (consecutive_selections (length ss) draw mode ss cur du now pb)"
    by (simp only: seln offsets_distinct)
  show "set (consecutive_selections (length ss) draw mode ss cur du now pb) = {0..<int (length ss)}"
  proof (cases "ss = []")
    case True
    then show ?thesis by simp
  next
    case False
    then have "0 < length ss" by simp
    from offsets_set [OF this] show ?thesis by (simp only: seln)
  qed
  show "consecutive_selections (Suc (length ss)) draw mode ss cur du now pb ! length ss
          = consecutive_selections (length ss) draw mode ss cur du now pb ! 0"
    if ne: "ss \<noteq> []"
  proof -
    from ne have pos: "0 < length ss" by simp
    have a: "map (\<lambda>j. (cur + int j) mod int (length ss)) [Suc 0..<Suc (Suc (length ss))] ! length ss
               = (cur + int (Suc (length ss))) mod int (length ss)"
      by (subst nth_map) (simp_all del: upt_Suc add: nth_upt)
    have b: "map (\<lambda>j. (cur + int j) mod int (length ss)) [Suc 0..<Suc (length ss)] ! 0
               = (cur + int (Suc 0)) mod int (length ss)"
      using pos by (subst nth_map) (simp_all del: upt_Suc add: nth_upt)
    have "cur + int (Suc (length ss)) = cur + 1 + int (length ss)" by simp
    then have "(cur + int (Suc (length ss))) mod int (length ss) = (cur + 1 + int (length ss)) mod int (length ss)"
      by (rule arg_cong)
    also have "\<dots> = (cur + 1) mod int (length ss)" by simp
    finally show ?thesis by (simp only: sel [of "Suc (length ss)", OF disjI1, OF ne] seln a b) simp
  qed
qed

theorem round_robin_selection_witness:
  "''round_robin'' \<noteq> ''single_account'' \<and> ''round_robin'' \<noteq> ''random''
   \<and> is_available {} Map.empty 0 ''s0'' \<and> is_available {} Map.empty 0 ''s1''
   \<and> is_available {} Map.empty 0 ''s2''
   \<and> choose_sender_index (\<lambda>i. 0) ''round_robin'' [''s0'', ''s1'', ''s2''] (- 1) Map.empty 0 {} = Some 0
   \<and> consecutive_selections 3 (\<lambda>i. 0) ''round_robin'' [''s0'', ''s1'', ''s2''] (- 1) Map.empty 0 {}
        = [0, 1, 2]
   \<and> consecutive_selections (Suc 3) (\<lambda>i. 0) ''round_robin'' [''s0'', ''s1'', ''s2''] (- 1) Map.empty 0 {} ! 3 = 0"
proof -
  let ?ss = "[''s0'', ''s1'', ''s2'']"
  have m: "''round_robin'' \<noteq> ''single_account''" "''round_robin'' \<noteq> ''random''" by simp_all
  have av: "\<forall>s \<in> set ?ss. is_available {} Map.empty 0 s" by (simp add: is_available_def)
  have len: "length ?ss = 3" by simp
  have up: "[1..<Suc 3] = [1, 2, 3]" by (simp add: upt_conv_Cons)
  note t = round_robin_selection [OF m, of "\<lambda>i. 0" ?ss "- 1" Map.empty 0 "{}", unfolded len up]
  from t have c: "choose_sender_index (\<lambda>i. 0) ''round_robin'' ?ss (- 1) Map.empty 0 {} = Some 0"
    by (simp add: is_available_def del: consecutive_selections.simps)
  from t av have s3: "consecutive_selections 3 (\<lambda>i. 0) ''round_robin'' ?ss (- 1) Map.empty 0 {} = [0, 1, 2]"
    by (simp del: consecutive_selections.simps)
  from t av have "consecutive_selections (Suc 3) (\<lambda>i. 0) ''round_robin'' ?ss (- 1) Map.empty 0 {} ! 3
                    = consecutive_selections 3 (\<lambda>i. 0) ''round_robin'' ?ss (- 1) Map.empty 0 {} ! 0"
    by (simp del: consecutive_selections.simps)
  with s3 have s4: "consecutive_selections (Suc 3) (\<lambda>i. 0) ''round_robin'' ?ss (- 1) Map.empty 0 {} ! 3 = 0"
    by (simp del: consecutive_selections.simps)
  show ?thesis using m av c s3 s4 by (simp del: consecutive_selections.simps)
qed


text \<open>
  Claim C10. For every mode string, session list, cursor, cooldown map, deny-list, time
  and random draws: an index returned by \<open>choose_sender_index\<close> is a valid index into
  the session list, and the session there is not on the deny-list and its cooldown-until
  entry (0 when missing) is not after the current time. When no session is available the
  result is \<open>None\<close>; the function has no failing branch.
\<close>

theorem choose_sender_index_available:
  "(choose_sender_index draw mode ss cur du now pb = Some i \<longrightarrow>
        0 \<le> i \<and> i < int (length ss)
      \<and> ss ! nat i \<notin> pb
      \<and> now \<ge> (case du (ss ! nat i) of None \<Rightarrow> 0 | Some t \<Rightarrow> t))
   \<and> ((\<forall>s \<in> set ss. \<not> is_available pb du now s) \<longrightarrow>
        choose_sender_index draw mode ss cur du now pb = None)"
  using choose_Some_available [of draw mode ss cur du now pb i]
        choose_None_unavailable [of ss pb du now draw mode cur]
  by (auto simp: is_available_def split: if_splits)

theorem choose_sender_index_available_witness:
  "choose_sender_index (\<lambda>i. 0) ''random'' [''a'', ''b''] (- 1) [''a'' \<mapsto> 100] 50 {} = Some 1
   \<and> [''a'', ''b''] ! nat 1 \<notin> ({} :: string set)
   \<and> (50 :: real) \<ge> (case [''a'' \<mapsto> 100 :: real] ([''a'', ''b''] ! nat 1) of None \<Rightarrow> 0 | Some t \<Rightarrow> t)
   \<and> \<not> is_available {''a''} Map.empty 0 ''a''
   \<and> choose_sender_index (\<lambda>i. 0) ''round_robin'' [''a''] (- 1) Map.empty 0 {''a''} = None"
proof -
  have e: "choose_sender_index (\<lambda>i. 0) ''random'' [''a'', ''b''] (- 1) [''a'' \<mapsto> 100] 50 {} = Some 1"
    by (simp add: choose_sender_index_def shuffle_def is_available_def Let_def upt_conv_Cons)
  have u: "\<forall>s \<in> set [''a'']. \<not> is_available {''a''} Map.empty 0 s"
    by (simp add: is_available_def)
  from choose_sender_index_available [of "\<lambda>i. 0" "''random''" "[''a'', ''b'']" "- 1" "[''a'' \<mapsto> 100]" 50 "{}" 1] e
  have a: "[''a'', ''b''] ! nat 1 \<notin> ({} :: string set)
           \<and> (50 :: real) \<ge> (case [''a'' \<mapsto> 100 :: real] ([''a'', ''b''] ! nat 1) of None \<Rightarrow> 0 | Some t \<Rightarrow> t)"
    by blast
  from choose_sender_index_available [of "\<lambda>i. 0" "''round_robin''" "[''a'']" "- 1" Map.empty 0 "{''a''}"] u
  have n: "choose_sender_index (\<lambda>i. 0) ''round_robin'' [''a''] (- 1) Map.empty 0 {''a''} = None"
    by blast
  show ?thesis using e a u n by simp
qed

section \<open>The cooldown window\<close>

text \<open>
  Claim C9, as the code behaves. \<open>within_history_window\<close> looks up the pair (recipient,
  message key). The record that a successful send makes goes to the ledger file, and to
  the in-memory history only under the key \<open>username.lower()\<close>. So after a record at
  second 1000 with a window of 5 days the lookup returns false at the time of the record
  and just before the window ends. With the pair entry in the map, which only
  \<open>load_sent_history\<close> puts there at the next start, it returns true just before the
  window ends and false from its end on.
\<close>

theorem record_not_seen_by_lookup:
  "sent_history_file
      (send_and_settle \<lparr>now_ts = 1000, uniform_u = 0, outcome = Delivered,
                         log_stamp = ''1970-01-01T00:16:40+00:00'',
                         history_stamp = ''1970-01-01T00:16:40.000000+00:00''\<rparr>
         ''AUTO'' ''AUTO:default'' ''s1'' ''@alice_01'' ''@alice_01''
         (fresh_state (Some (''@alice_01'' @ [LF]))))
     = Some [[''timestamp'', ''username'', ''message_key''],
             [''1970-01-01T00:16:40.000000+00:00'', ''@alice_01'', ''AUTO:default'']]
   \<and> within_history_window
        (sent_hist
          (send_and_settle \<lparr>now_ts = 1000, uniform_u = 0, outcome = Delivered,
                             log_stamp = ''1970-01-01T00:16:40+00:00'',
                             history_stamp = ''1970-01-01T00:16:40.000000+00:00''\<rparr>
             ''AUTO'' ''AUTO:default'' ''s1'' ''@alice_01'' ''@alice_01''
             (fresh_state (Some (''@alice_01'' @ [LF])))))
        ''@alice_01'' ''AUTO:default'' 5 1000000000 = Inr False
   \<and> within_history_window
        (sent_hist
          (send_and_settle \<lparr>now_ts = 1000, uniform_u = 0, outcome = Delivered,
                             log_stamp = ''1970-01-01T00:16:40+00:00'',
                             history_stamp = ''1970-01-01T00:16:40.000000+00:00''\<rparr>
             ''AUTO'' ''AUTO:default'' ''s1'' ''@alice_01'' ''@alice_01''
             (fresh_state (Some (''@alice_01'' @ [LF])))))
        ''@alice_01'' ''AUTO:default'' 5 (1000000000 + 5 * 86400000000 - 1) = Inr False
   \<and> within_history_window
        ((sent_hist
           (send_and_settle \<lparr>now_ts = 1000, uniform_u = 0, outcome = Delivered,
                              log_stamp = ''1970-01-01T00:16:40+00:00'',
                              history_stamp = ''1970-01-01T00:16:40.000000+00:00''\<rparr>
              ''AUTO'' ''AUTO:default'' ''s1'' ''@alice_01'' ''@alice_01''
              (fresh_state (Some (''@alice_01'' @ [LF])))))
           (PairKey ''@alice_01'' ''AUTO:default'' \<mapsto> Stamp (Aware 1000000000)))
        ''@alice_01'' ''AUTO:default'' 5 (1000000000 + 5 * 86400000000 - 1) = Inr True
   \<and> within_history_window
        ((sent_hist
           (send_and_settle \<lparr>now_ts = 1000, uniform_u = 0, outcome = Delivered,
                              log_stamp = ''1970-01-01T00:16:40+00:00'',
                              history_stamp = ''1970-01-01T00:16:40.000000+00:00''\<rparr>
              ''AUTO'' ''AUTO:default'' ''s1'' ''@alice_01'' ''@alice_01''
              (fresh_state (Some (''@alice_01'' @ [LF])))))
           (PairKey ''@alice_01'' ''AUTO:default'' \<mapsto> Stamp (Aware 1000000000)))
        ''@alice_01'' ''AUTO:default'' 5 (1000000000 + 5 * 86400000000) = Inr False"
proof -
  have l: "lower ''@alice_01'' = ''@alice_01''" by code_simp
  show ?thesis
    by (simp add: send_and_settle_def send_one_message_def fresh_state_def Let_def l
                  append_sent_history_def within_history_window_def timedelta_days_def)
qed

section \<open>The dispatcher contract\<close>

text \<open>
  Claim C4. A flow run starts with an empty \<open>send_counter\<close> on the shared cooldown
  map, and at every point of the run the counter of a session equals the number of
  deliveries the session has made in the run, which is never more than 2. Once a
  session has made 2 deliveries in the run, a further \<open>send_one_message\<close> with it
  returns false without calling the transport and without changing the counter, and
  sets the session's entry in the shared cooldown map to the current time plus
  \<open>random.uniform(20, 40)\<close>, that is 20 to 40 seconds later; until then no selection,
  by whichever flow, returns that session. The same holds in any state in which the
  counter of the session is 2 or more.
\<close>

theorem send_cap:
  "(let run = send_run flow key attempts (start_flow_run qf st0) in
        (case send_counter run s of None \<Rightarrow> 0 | Some c \<Rightarrow> c) = int (deliveries s run)
      \<and> deliveries s run \<le> 2
      \<and> (deliveries s run = 2 \<longrightarrow>
            send_one_message now u oc s uname run
              = (False, run\<lparr>disabled_until :=
                               (disabled_until run)(s \<mapsto> now + random_uniform 20 40 u)\<rparr>)
          \<and> transport_calls (snd (send_one_message now u oc s uname run)) = transport_calls run
          \<and> deliveries s (snd (send_one_message now u oc s uname run)) = 2
          \<and> send_counter (snd (send_one_message now u oc s uname run)) = send_counter run
          \<and> (0 \<le> u \<and> u \<le> 1 \<longrightarrow>
                now + 20 \<le> now + random_uniform 20 40 u \<and> now + random_uniform 20 40 u \<le> now + 40)
          \<and> (\<forall>draw mode ss cur t pb i.
                t < now + random_uniform 20 40 u \<and>
                choose_sender_index draw mode ss cur
                  (disabled_until (snd (send_one_message now u oc s uname run))) t pb = Some i
                \<longrightarrow> ss ! nat i \<noteq> s)))
   \<and> ((case send_counter st s of None \<Rightarrow> 0 | Some c \<Rightarrow> c) \<ge> 2 \<longrightarrow>
        send_one_message now u oc s uname st
          = (False, st\<lparr>disabled_until := (disabled_until st)(s \<mapsto> now + random_uniform 20 40 u)\<rparr>)
      \<and> transport_calls (snd (send_one_message now u oc s uname st)) = transport_calls st
      \<and> send_counter (snd (send_one_message now u oc s uname st)) = send_counter st
      \<and> (0 \<le> u \<and> u \<le> 1 \<longrightarrow>
            now + 20 \<le> now + random_uniform 20 40 u \<and> now + random_uniform 20 40 u \<le> now + 40)
      \<and> (\<forall>draw mode ss cur t pb i.
            t < now + random_uniform 20 40 u \<and>
            choose_sender_index draw mode ss cur
              (disabled_until (snd (send_one_message now u oc s uname st))) t pb = Some i
            \<longrightarrow> ss ! nat i \<noteq> s))
   \<and> send_counter (start_flow_run qf st0) = Map.empty
   \<and> disabled_until (start_flow_run qf st0) = disabled_until st0"
proof -
  let ?run = "send_run flow key attempts (start_flow_run qf st0)"
  have c: "(case send_counter ?run s of None \<Rightarrow> 0 | Some c \<Rightarrow> c) = int (deliveries s ?run)"
    by (rule run_counter)
  have le: "deliveries s ?run \<le> 2" by (rule deliveries_capped)
  have two: "send_one_message now u oc s uname ?run
              = (False, ?run\<lparr>disabled_until :=
                               (disabled_until ?run)(s \<mapsto> now + random_uniform 20 40 u)\<rparr>)
          \<and> transport_calls (snd (send_one_message now u oc s uname ?run)) = transport_calls ?run
          \<and> deliveries s (snd (send_one_message now u oc s uname ?run)) = 2
          \<and> send_counter (snd (send_one_message now u oc s uname ?run)) = send_counter ?run
          \<and> (0 \<le> u \<and> u \<le> 1 \<longrightarrow>
                now + 20 \<le> now + random_uniform 20 40 u \<and> now + random_uniform 20 40 u \<le> now + 40)
          \<and> (\<forall>draw mode ss cur t pb i.
                t < now + random_uniform 20 40 u \<and>
                choose_sender_index draw mode ss cur
                  (disabled_until (snd (send_one_message now u oc s uname ?run))) t pb = Some i
                \<longrightarrow> ss ! nat i \<noteq> s)"
    if d: "deliveries s ?run = 2"
  proof -
    from c d have cap: "(case send_counter ?run s of None \<Rightarrow> 0 | Some c \<Rightarrow> c) \<ge> 2" by simp
    note e = cap_effects [OF cap, of now u oc uname]
    from e have "transport_calls (snd (send_one_message now u oc s uname ?run)) = transport_calls ?run"
      by blast
    then have "deliveries s (snd (send_one_message now u oc s uname ?run)) = 2"
      using d by (simp add: deliveries_def)
    with e show ?thesis by blast
  qed
  have old: "(case send_counter st s of None \<Rightarrow> 0 | Some c \<Rightarrow> c) \<ge> 2 \<longrightarrow>
        send_one_message now u oc s uname st
          = (False, st\<lparr>disabled_until := (disabled_until st)(s \<mapsto> now + random_uniform 20 40 u)\<rparr>)
      \<and> transport_calls (snd (send_one_message now u oc s uname st)) = transport_calls st
      \<and> send_counter (snd (send_one_message now u oc s uname st)) = send_counter st
      \<and> (0 \<le> u \<and> u \<le> 1 \<longrightarrow>
            now + 20 \<le> now + random_uniform 20 40 u \<and> now + random_uniform 20 40 u \<le> now + 40)
      \<and> (\<forall>draw mode ss cur t pb i.
            t < now + random_uniform 20 40 u \<and>
            choose_sender_index draw mode ss cur
              (disabled_until (snd (send_one_message now u oc s uname st))) t pb = Some i
            \<longrightarrow> ss ! nat i \<noteq> s)"
    using cap_effects [of st s now u oc uname] by blast
  have st1: "send_counter (start_flow_run qf st0) = Map.empty" by (simp add: start_flow_run_def)
  have st2: "disabled_until (start_flow_run qf st0) = disabled_until st0"
    by (simp add: start_flow_run_def)
  show ?thesis
    unfolding Let_def
    using c le two old st1 st2 by blast
qed

theorem send_cap_witness:
  "deliveries ''s1''
     (send_run ''AUTO'' ''AUTO:default''
        [(\<lparr>now_ts = 1000, uniform_u = 1 / 2, outcome = Delivered, log_stamp = ''t1'', history_stamp = ''t1''\<rparr>,
          ''s1'', ''@alice_01'', ''@alice_01''),
         (\<lparr>now_ts = 1010, uniform_u = 1 / 2, outcome = Delivered, log_stamp = ''t2'', history_stamp = ''t2''\<rparr>,
          ''s1'', ''@bob_0001'', ''@bob_0001'')]
        (start_flow_run None (fresh_state None))) = 2
   \<and> fst (send_one_message 1020 (1 / 2) Delivered ''s1'' ''@carol_01''
        (send_run ''AUTO'' ''AUTO:default''
           [(\<lparr>now_ts = 1000, uniform_u = 1 / 2, outcome = Delivered, log_stamp = ''t1'', history_stamp = ''t1''\<rparr>,
             ''s1'', ''@alice_01'', ''@alice_01''),
            (\<lparr>now_ts = 1010, uniform_u = 1 / 2, outcome = Delivered, log_stamp = ''t2'', history_stamp = ''t2''\<rparr>,
             ''s1'', ''@bob_0001'', ''@bob_0001'')]
           (start_flow_run None (fresh_state None)))) = False
   \<and> transport_calls (snd (send_one_message 1020 (1 / 2) Delivered ''s1'' ''@carol_01''
        (send_run ''AUTO'' ''AUTO:default''
           [(\<lparr>now_ts = 1000, uniform_u = 1 / 2, outcome = Delivered, log_stamp = ''t1'', history_stamp = ''t1''\<rparr>,
             ''s1'', ''@alice_01'', ''@alice_01''),
            (\<lparr>now_ts = 1010, uniform_u = 1 / 2, outcome = Delivered, log_stamp = ''t2'', history_stamp = ''t2''\<rparr>,
             ''s1'', ''@bob_0001'', ''@bob_0001'')]
           (start_flow_run None (fresh_state None)))))
       = [(''s1'', ''@alice_01'', Delivered), (''s1'', ''@bob_0001'', Delivered)]
   \<and> disabled_until (snd (send_one_message 1020 (1 / 2) Delivered ''s1'' ''@carol_01''
        (send_run ''AUTO'' ''AUTO:default''
           [(\<lparr>now_ts = 1000, uniform_u = 1 / 2, outcome = Delivered, log_stamp = ''t1'', history_stamp = ''t1''\<rparr>,
             ''s1'', ''@alice_01'', ''@alice_01''),
            (\<lparr>now_ts = 1010, uniform_u = 1 / 2, outcome = Delivered, log_stamp = ''t2'', history_stamp = ''t2''\<rparr>,
             ''s1'', ''@bob_0001'', ''@bob_0001'')]
           (start_flow_run None (fresh_state None))))) ''s1'' = Some 1050
   \<and> choose_sender_index (\<lambda>i. 0) ''round_robin'' [''s1''] (- 1)
        (disabled_until (snd (send_one_message 1020 (1 / 2) Delivered ''s1'' ''@carol_01''
           (send_run ''AUTO'' ''AUTO:default''
              [(\<lparr>now_ts = 1000, uniform_u = 1 / 2, outcome = Delivered, log_stamp = ''t1'', history_stamp = ''t1''\<rparr>,
                ''s1'', ''@alice_01'', ''@alice_01''),
               (\<lparr>now_ts = 1010, uniform_u = 1 / 2, outcome = Delivered, log_stamp = ''t2'', history_stamp = ''t2''\<rparr>,
                ''s1'', ''@bob_0001'', ''@bob_0001'')]
              (start_flow_run None (fresh_state None)))))) 1049 {} \<noteq> Some 0
   \<and> (0 :: real) \<le> 1 / 2 \<and> (1 / 2 :: real) \<le> 1"
proof -
  let ?as = "[(\<lparr>now_ts = 1000, uniform_u = 1 / 2, outcome = Delivered, log_stamp = ''t1'', history_stamp = ''t1''\<rparr>,
          ''s1'', ''@alice_01'', ''@alice_01''),
         (\<lparr>now_ts = 1010, uniform_u = 1 / 2, outcome = Delivered, log_stamp = ''t2'', history_stamp = ''t2''\<rparr>,
          ''s1'', ''@bob_0001'', ''@bob_0001'')]"
  let ?run = "send_run ''AUTO'' ''AUTO:default'' ?as (start_flow_run None (fresh_state None))"
  have tc: "transport_calls ?run = [(''s1'', ''@alice_01'', Delivered), (''s1'', ''@bob_0001'', Delivered)]"
    by (simp add: settle_fields send_one_message_def Let_def start_flow_run_def fresh_state_def)
  have d: "deliveries ''s1'' ?run = 2" by (simp only: deliveries_def tc) simp
  have r: "random_uniform 20 40 (1 / 2) = 30" by (simp add: random_uniform_def)
  note t = send_cap [of "''AUTO''" "''AUTO:default''" ?as None "fresh_state None" "''s1''"
                        1020 "1 / 2" Delivered "''@carol_01''", unfolded Let_def]
  from t d have e: "send_one_message 1020 (1 / 2) Delivered ''s1'' ''@carol_01'' ?run
                     = (False, ?run\<lparr>disabled_until :=
                          (disabled_until ?run)(''s1'' \<mapsto> 1020 + random_uniform 20 40 (1 / 2))\<rparr>)"
    by blast
  from t d have k: "transport_calls (snd (send_one_message 1020 (1 / 2) Delivered ''s1'' ''@carol_01'' ?run))
                      = transport_calls ?run"
    by blast
  from t d have all: "\<And>draw mode ss cur t pb i.
         t < 1020 + random_uniform 20 40 (1 / 2) \<and>
         choose_sender_index draw mode ss cur
           (disabled_until (snd (send_one_message 1020 (1 / 2) Delivered ''s1'' ''@carol_01'' ?run))) t pb = Some i
         \<longrightarrow> ss ! nat i \<noteq> ''s1''"
    by blast
  have n: "choose_sender_index (\<lambda>i. 0) ''round_robin'' [''s1''] (- 1)
         (disabled_until (snd (send_one_message 1020 (1 / 2) Delivered ''s1'' ''@carol_01'' ?run))) 1049 {} \<noteq> Some 0"
    using all [where t = 1049 and draw = "\<lambda>i. 0" and mode = "''round_robin''" and ss = "[''s1'']"
                 and cur = "- 1" and pb = "{}" and i = 0]
    by (simp add: r)
  have f1: "fst (send_one_message 1020 (1 / 2) Delivered ''s1'' ''@carol_01'' ?run) = False"
    by (simp only: e fst_conv)
  have f2: "disabled_until (snd (send_one_message 1020 (1 / 2) Delivered ''s1'' ''@carol_01'' ?run)) ''s1''
              = Some 1050"
    by (simp only: e snd_conv r) simp
  have f3: "transport_calls (snd (send_one_message 1020 (1 / 2) Delivered ''s1'' ''@carol_01'' ?run))
              = [(''s1'', ''@alice_01'', Delivered), (''s1'', ''@bob_0001'', Delivered)]"
    by (simp only: k tc)
  show ?thesis using d f1 f2 f3 n by simp
qed

text \<open>
  Claim C5, as the code behaves for a flood wait. \<open>send_one_message\<close> reads the wait
  with \<open>getattr(e, "seconds", 60)\<close>, an attribute that the library's exception does not
  have, so whatever wait the server indicates the session is disabled for 60 + 2
  seconds: with a wait of 10 seconds it is still unavailable after 61, and with a wait
  of an hour it is available again after 62. The recipient is moved to the end of the
  queue and no history is written, as for every temporary failure.
\<close>

theorem flood_wait_cooldown:
  "disabled_until
     (send_and_settle \<lparr>now_ts = 1000, uniform_u = 0, outcome = pyrogram_flood_wait server_wait,
                        log_stamp = ''1970-01-01T00:16:40+00:00'',
                        history_stamp = ''1970-01-01T00:16:40.000000+00:00''\<rparr>
        ''AUTO'' ''AUTO:default'' ''s1'' ''@carol_01'' ''@carol_01''
        (fresh_state (Some (''@carol_01'' @ [LF] @ ''@dave_0001'' @ [LF])))) ''s1'' = Some 1062
   \<and> \<not> is_available {}
         (disabled_until
            (send_and_settle \<lparr>now_ts = 1000, uniform_u = 0, outcome = pyrogram_flood_wait 10,
                               log_stamp = ''1970-01-01T00:16:40+00:00'',
                               history_stamp = ''1970-01-01T00:16:40.000000+00:00''\<rparr>
               ''AUTO'' ''AUTO:default'' ''s1'' ''@carol_01'' ''@carol_01''
               (fresh_state (Some (''@carol_01'' @ [LF] @ ''@dave_0001'' @ [LF]))))) 1061 ''s1''
   \<and> is_available {}
         (disabled_until
            (send_and_settle \<lparr>now_ts = 1000, uniform_u = 0, outcome = pyrogram_flood_wait 3600,
                               log_stamp = ''1970-01-01T00:16:40+00:00'',
                               history_stamp = ''1970-01-01T00:16:40.000000+00:00''\<rparr>
               ''AUTO'' ''AUTO:default'' ''s1'' ''@carol_01'' ''@carol_01''
               (fresh_state (Some (''@carol_01'' @ [LF] @ ''@dave_0001'' @ [LF]))))) 1062 ''s1''
   \<and> read_lines_unique (queue_file
         (send_and_settle \<lparr>now_ts = 1000, uniform_u = 0, outcome = pyrogram_flood_wait 10,
                            log_stamp = ''1970-01-01T00:16:40+00:00'',
                            history_stamp = ''1970-01-01T00:16:40.000000+00:00''\<rparr>
            ''AUTO'' ''AUTO:default'' ''s1'' ''@carol_01'' ''@carol_01''
            (fresh_state (Some (''@carol_01'' @ [LF] @ ''@dave_0001'' @ [LF])))))
       = [''@dave_0001'', ''@carol_01'']
   \<and> sent_history_file
         (send_and_settle \<lparr>now_ts = 1000, uniform_u = 0, outcome = pyrogram_flood_wait 10,
                            log_stamp = ''1970-01-01T00:16:40+00:00'',
                            history_stamp = ''1970-01-01T00:16:40.000000+00:00''\<rparr>
            ''AUTO'' ''AUTO:default'' ''s1'' ''@carol_01'' ''@carol_01''
            (fresh_state (Some (''@carol_01'' @ [LF] @ ''@dave_0001'' @ [LF])))) = None"
proof -
  let ?q = "Some (''@carol_01'' @ [LF] @ ''@dave_0001'' @ [LF])"
  have m: "read_lines_unique (fst (move_line_to_end_atomic ?q ''@carol_01'')) = [''@dave_0001'', ''@carol_01'']"
    by code_simp
  show ?thesis
    using m
    by (simp add: send_and_settle_def send_one_message_def fresh_state_def Let_def
                  pyrogram_flood_wait_def is_available_def)
qed


text \<open>
  Claim C2, for successful sends. A send attempt that succeeds appends exactly one row
  (timestamp, recipient, flow, session, \<open>OK\<close>, empty error) to the send log, after the
  header row when the file did not exist; the rows that later attempts of the run write
  come after it. An attempt that does not succeed, because the session is at its cap or
  the transport raises, leaves the send log as it was.
\<close>

theorem send_log_rows:
  "let st' = send_and_settle a flow key s username uname st;
       row = [log_stamp a, uname, flow, s, ''OK'', '''']
   in ((case send_counter st s of None \<Rightarrow> 0 | Some c \<Rightarrow> c) < 2 \<and> outcome a = Delivered \<longrightarrow>
          send_log st' = append_send_log (send_log st) row
        \<and> (\<forall>rows. send_log st = Some rows \<longrightarrow> send_log st' = Some (rows @ [row]))
        \<and> (send_log st = None \<longrightarrow>
              send_log st' = Some [[''timestamp'', ''username'', ''group'', ''sender_session'',
                                    ''result'', ''error''], row])
        \<and> (\<exists>more. rows_of (send_log (send_run flow key rest st')) = rows_of (send_log st') @ more))
     \<and> (\<not> ((case send_counter st s of None \<Rightarrow> 0 | Some c \<Rightarrow> c) < 2 \<and> outcome a = Delivered) \<longrightarrow>
          send_log st' = send_log st)"
  using run_log_grows [of flow key rest "send_and_settle a flow key s username uname st"]
  by (auto simp: Let_def settle_log send_ok_iff append_send_log_def)

theorem send_log_rows_witness:
  "(case send_counter (fresh_state (Some (''@alice_01'' @ [LF]))) ''s1'' of None \<Rightarrow> 0 | Some c \<Rightarrow> c) < 2
   \<and> send_log
        (send_and_settle \<lparr>now_ts = 1000, uniform_u = 0, outcome = Delivered,
                           log_stamp = ''2026-01-01T00:00:00+00:00'',
                           history_stamp = ''2026-01-01T00:00:00.000000+00:00''\<rparr>
           ''AUTO'' ''AUTO:default'' ''s1'' ''@alice_01'' ''@alice_01''
           (fresh_state (Some (''@alice_01'' @ [LF]))))
       = Some [[''timestamp'', ''username'', ''group'', ''sender_session'', ''result'', ''error''],
               [''2026-01-01T00:00:00+00:00'', ''@alice_01'', ''AUTO'', ''s1'', ''OK'', '''']]
   \<and> send_log
        (send_and_settle \<lparr>now_ts = 1000, uniform_u = 0, outcome = OtherException,
                           log_stamp = ''2026-01-01T00:00:00+00:00'',
                           history_stamp = ''2026-01-01T00:00:00.000000+00:00''\<rparr>
           ''AUTO'' ''AUTO:default'' ''s1'' ''@alice_01'' ''@alice_01''
           ((fresh_state (Some (''@alice_01'' @ [LF])))\<lparr>send_log := Some [[''h'']]\<rparr>))
       = Some [[''h'']]"
proof -
  let ?st = "fresh_state (Some (''@alice_01'' @ [LF]))"
  let ?a = "\<lparr>now_ts = 1000, uniform_u = 0, outcome = Delivered,
              log_stamp = ''2026-01-01T00:00:00+00:00'',
              history_stamp = ''2026-01-01T00:00:00.000000+00:00''\<rparr>"
  let ?b = "\<lparr>now_ts = 1000, uniform_u = 0, outcome = OtherException,
              log_stamp = ''2026-01-01T00:00:00+00:00'',
              history_stamp = ''2026-01-01T00:00:00.000000+00:00''\<rparr>"
  have c: "(case send_counter ?st ''s1'' of None \<Rightarrow> 0 | Some c \<Rightarrow> c) < 2"
    by (simp add: fresh_state_def)
  have n: "send_log ?st = None" by (simp add: fresh_state_def)
  have o: "outcome ?a = Delivered" by simp
  from send_log_rows [of ?a "''AUTO''" "''AUTO:default''" "''s1''" "''@alice_01''" "''@alice_01''" ?st "[]",
                      unfolded Let_def] c n o
  have x: "send_log (send_and_settle ?a ''AUTO'' ''AUTO:default'' ''s1'' ''@alice_01'' ''@alice_01'' ?st)
       = Some [[''timestamp'', ''username'', ''group'', ''sender_session'', ''result'', ''error''],
               [''2026-01-01T00:00:00+00:00'', ''@alice_01'', ''AUTO'', ''s1'', ''OK'', '''']]"
    by (simp add: append_send_log_def)
  have o2: "outcome ?b \<noteq> Delivered" by simp
  from send_log_rows [of ?b "''AUTO''" "''AUTO:default''" "''s1''" "''@alice_01''" "''@alice_01''"
                         "?st\<lparr>send_log := Some [[''h'']]\<rparr>" "[]", unfolded Let_def] o2
  have y: "send_log (send_and_settle ?b ''AUTO'' ''AUTO:default'' ''s1'' ''@alice_01'' ''@alice_01''
             (?st\<lparr>send_log := Some [[''h'']]\<rparr>)) = Some [[''h'']]"
    by simp
  show ?thesis using c x y by blast
qed

text \<open>
  A failed attempt is not logged: the transport is called and raises a peer flood, and
  the send log still does not exist afterwards.
\<close>

theorem send_log_rows_counterexample:
  "transport_calls
     (send_and_settle \<lparr>now_ts = 1000, uniform_u = 0, outcome = PeerFlood,
                        log_stamp = ''2026-01-01T00:00:00+00:00'',
                        history_stamp = ''2026-01-01T00:00:00.000000+00:00''\<rparr>
        ''AUTO'' ''AUTO:default'' ''s1'' ''@alice_01'' ''@alice_01''
        (fresh_state (Some (''@alice_01'' @ [LF]))))
     = [(''s1'', ''@alice_01'', PeerFlood)]
   \<and> send_log (fresh_state (Some (''@alice_01'' @ [LF]))) = None
   \<and> send_log
       (send_and_settle \<lparr>now_ts = 1000, uniform_u = 0, outcome = PeerFlood,
                          log_stamp = ''2026-01-01T00:00:00+00:00'',
                          history_stamp = ''2026-01-01T00:00:00.000000+00:00''\<rparr>
          ''AUTO'' ''AUTO:default'' ''s1'' ''@alice_01'' ''@alice_01''
          (fresh_state (Some (''@alice_01'' @ [LF])))) = None"
  by (simp add: send_and_settle_def send_one_message_def fresh_state_def Let_def)

text \<open>
  Claim C1, as the code behaves. The module's description says that a permanent failure
  removes the recipient from the flow's file. \<open>send_one_message\<close> returns false for a
  privacy restriction and for a bad request as for every other failure, and the caller
  then moves the recipient to the end of the queue: it stays in the file and comes up
  again in the next pass, and the session gets no cooldown.
\<close>

theorem permanent_failure_requeued:
  "read_lines_unique (queue_file
      (send_and_settle \<lparr>now_ts = 1000, uniform_u = 0, outcome = UserPrivacyRestricted,
                         log_stamp = ''2026-01-01T00:00:00+00:00'',
                         history_stamp = ''2026-01-01T00:00:00.000000+00:00''\<rparr>
         ''AUTO'' ''AUTO:default'' ''s1'' ''@alice_01'' ''@alice_01''
         (fresh_state (Some (''@alice_01'' @ [LF] @ ''@bob_0001'' @ [LF])))))
     = [''@bob_0001'', ''@alice_01'']
   \<and> read_lines_unique (queue_file
      (send_and_settle \<lparr>now_ts = 1000, uniform_u = 0, outcome = BadRequest,
                         log_stamp = ''2026-01-01T00:00:00+00:00'',
                         history_stamp = ''2026-01-01T00:00:00.000000+00:00''\<rparr>
         ''AUTO'' ''AUTO:default'' ''s1'' ''@alice_01'' ''@alice_01''
         (fresh_state (Some (''@alice_01'' @ [LF] @ ''@bob_0001'' @ [LF])))))
     = [''@bob_0001'', ''@alice_01'']
   \<and> disabled_until
      (send_and_settle \<lparr>now_ts = 1000, uniform_u = 0, outcome = UserPrivacyRestricted,
                         log_stamp = ''2026-01-01T00:00:00+00:00'',
                         history_stamp = ''2026-01-01T00:00:00.000000+00:00''\<rparr>
         ''AUTO'' ''AUTO:default'' ''s1'' ''@alice_01'' ''@alice_01''
         (fresh_state (Some (''@alice_01'' @ [LF] @ ''@bob_0001'' @ [LF])))) ''s1'' = None"
proof -
  let ?q = "Some (''@alice_01'' @ [LF] @ ''@bob_0001'' @ [LF])"
  have m: "read_lines_unique (fst (move_line_to_end_atomic ?q ''@alice_01'')) = [''@bob_0001'', ''@alice_01'']"
    by code_simp
  show ?thesis
    using m by (simp add: send_and_settle_def send_one_message_def fresh_state_def Let_def)
qed


text \<open>
  Claim C3, as the code behaves. After a successful send the ledger has the new row, but
  the in-memory history gets an entry under the key \<open>username.lower()\<close> and none under
  the pair (recipient, message key) that \<open>within_history_window\<close> looks up: the lookup
  for the recipient just sent to returns false, at any time.
\<close>

theorem success_not_in_memory_history:
  "sent_history_file
      (send_and_settle \<lparr>now_ts = 1000, uniform_u = 0, outcome = Delivered,
                         log_stamp = ''2026-01-01T00:00:00+00:00'',
                         history_stamp = ''2026-01-01T00:00:00.000000+00:00''\<rparr>
         ''AUTO'' ''AUTO:default'' ''s1'' ''@alice_01'' ''@alice_01''
         (fresh_state (Some (''@alice_01'' @ [LF]))))
     = Some [[''timestamp'', ''username'', ''message_key''],
             [''2026-01-01T00:00:00.000000+00:00'', ''@alice_01'', ''AUTO:default'']]
   \<and> sent_hist
      (send_and_settle \<lparr>now_ts = 1000, uniform_u = 0, outcome = Delivered,
                         log_stamp = ''2026-01-01T00:00:00+00:00'',
                         history_stamp = ''2026-01-01T00:00:00.000000+00:00''\<rparr>
         ''AUTO'' ''AUTO:default'' ''s1'' ''@alice_01'' ''@alice_01''
         (fresh_state (Some (''@alice_01'' @ [LF])))) (NameKey ''@alice_01'') = Some (Secs 1000)
   \<and> sent_hist
      (send_and_settle \<lparr>now_ts = 1000, uniform_u = 0, outcome = Delivered,
                         log_stamp = ''2026-01-01T00:00:00+00:00'',
                         history_stamp = ''2026-01-01T00:00:00.000000+00:00''\<rparr>
         ''AUTO'' ''AUTO:default'' ''s1'' ''@alice_01'' ''@alice_01''
         (fresh_state (Some (''@alice_01'' @ [LF])))) (PairKey ''@alice_01'' ''AUTO:default'') = None
   \<and> within_history_window
        (sent_hist
          (send_and_settle \<lparr>now_ts = 1000, uniform_u = 0, outcome = Delivered,
                             log_stamp = ''2026-01-01T00:00:00+00:00'',
                             history_stamp = ''2026-01-01T00:00:00.000000+00:00''\<rparr>
             ''AUTO'' ''AUTO:default'' ''s1'' ''@alice_01'' ''@alice_01''
             (fresh_state (Some (''@alice_01'' @ [LF])))))
        ''@alice_01'' ''AUTO:default'' 5 utc_now = Inr False"
proof -
  have l: "lower ''@alice_01'' = ''@alice_01''" by code_simp
  show ?thesis
    by (simp add: send_and_settle_def send_one_message_def fresh_state_def Let_def l
                  append_sent_history_def within_history_window_def)
qed

end
